theory Spec2Isabelle
  imports Complex_Main
begin

section \<open>Numbers, boxes and Intersection-over-Union\<close>

text \<open>
  The pipeline computes with JavaScript numbers. Coordinates, scores and thresholds
  are finite and are modelled as exact reals: the rounding of double precision is
  not modelled for them, and the properties of \<open>calculateIoU\<close> below rest on
  comparisons and on steps that are exact in double precision. The non-finite
  values that a division by zero produces are kept apart, since the source never
  guards a denominator: \<open>0 / 0\<close> is \<open>NaN\<close> and \<open>a / 0\<close> is an infinity of the
  sign of \<open>a\<close>.
\<close>

datatype jsnum = Fin real | NaN | PosInf | NegInf

definition js_div :: "real \<Rightarrow> real \<Rightarrow> jsnum" where
  "js_div a b =
     (if b \<noteq> 0 then Fin (a / b)
      else if a = 0 then NaN
      else if 0 < a then PosInf else NegInf)"

text \<open>The comparison \<open>v > t\<close> of JavaScript: false whenever \<open>v\<close> is \<open>NaN\<close>.\<close>

fun js_gt :: "jsnum \<Rightarrow> real \<Rightarrow> bool" where
  "js_gt (Fin r) t = (t < r)"
| "js_gt NaN t = False"
| "js_gt PosInf t = True"
| "js_gt NegInf t = False"

text \<open>
  A bounding box \<open>{x, y, width, height}\<close>; the fields \<open>x\<close> and \<open>y\<close> of the source
  are \<open>box_x\<close> and \<open>box_y\<close> here.
\<close>

record box =
  box_x :: real
  box_y :: real
  width :: real
  height :: real

text \<open>
  \<open>calculateIoU(box1, box2)\<close>; the function has the same text in \<open>main.js\<close> and in
  \<open>yolo-worker.js\<close>.
\<close>

definition intersection :: "box \<Rightarrow> box \<Rightarrow> real" where
  "intersection box1 box2 =
     (let x1 = max (box_x box1) (box_x box2);
          y1 = max (box_y box1) (box_y box2);
          x2 = min (box_x box1 + width box1) (box_x box2 + width box2);
          y2 = min (box_y box1 + height box1) (box_y box2 + height box2)
      in max 0 (x2 - x1) * max 0 (y2 - y1))"

definition calculateIoU :: "box \<Rightarrow> box \<Rightarrow> jsnum" where
  "calculateIoU box1 box2 =
     (let intersection = intersection box1 box2;
          area1 = width box1 * height box1;
          area2 = width box2 * height box2;
          union = area1 + area2 - intersection
      in js_div intersection union)"




text \<open>
  Reading \<open>boxes[idx]\<close> past the end gives \<open>undefined\<close>, and \<open>calculateIoU\<close> then
  throws a \<open>TypeError\<close> at its first property access.
\<close>

datatype error = TypeError | Failure string

fun lookup :: "'a list \<Rightarrow> nat \<Rightarrow> 'a option" where
  "lookup [] i = None"
| "lookup (a # as) 0 = Some a"
| "lookup (a # as) (Suc i) = lookup as i"

definition calculateIoU_at :: "box option \<Rightarrow> box option \<Rightarrow> error + jsnum" where
  "calculateIoU_at b1 b2 =
     (case b1 of
        None \<Rightarrow> Inl TypeError
      | Some box1 \<Rightarrow>
          (case b2 of
             None \<Rightarrow> Inl TypeError
           | Some box2 \<Rightarrow> Inr (calculateIoU box1 box2)))"

section \<open>Non-maximum suppression\<close>

text \<open>
  \<open>scores.map((score, idx) => ({score, idx})).sort((a, b) => b.score - a.score)
  .map(item => item.idx)\<close>: the indices by descending score; \<open>Array.prototype.sort\<close>
  is stable, so equal scores keep their order.
\<close>

definition sortedIndices :: "real list \<Rightarrow> nat list" where
  "sortedIndices scores =
     map snd (sort_key (\<lambda>item. - fst item) (zip scores [0..<length scores]))"

text \<open>\<open>indices.splice(i, 1)\<close>.\<close>

definition splice1 :: "nat \<Rightarrow> 'a list \<Rightarrow> 'a list" where
  "splice1 i xs = take i xs @ drop (Suc i) xs"

text \<open>
  The suppression pass of \<open>main.js\<close>:
  \<open>indices.forEach((idx, i) => { if (calculateIoU(currentBox, boxes[idx]) > iouThreshold)
  indices.splice(i, 1); })\<close>.
  \<open>forEach\<close> reads the length once, visits the positions \<open>0, 1, ...\<close> below it in
  turn, and skips a position that the array no longer has; the callback removes
  elements from the very array that is being visited.
\<close>

definition forEach_step ::
  "box list \<Rightarrow> real \<Rightarrow> box option \<Rightarrow> nat \<Rightarrow> error + nat list \<Rightarrow> error + nat list" where
  "forEach_step boxes iouThreshold currentBox i acc =
     (case acc of
        Inl e \<Rightarrow> Inl e
      | Inr indices \<Rightarrow>
          (case lookup indices i of
             None \<Rightarrow> Inr indices
           | Some idx \<Rightarrow>
               (case calculateIoU_at currentBox (lookup boxes idx) of
                  Inl e \<Rightarrow> Inl e
                | Inr iou \<Rightarrow>
                    if js_gt iou iouThreshold then Inr (splice1 i indices)
                    else Inr indices)))"

definition forEach_suppress ::
  "box list \<Rightarrow> real \<Rightarrow> box option \<Rightarrow> nat list \<Rightarrow> error + nat list" where
  "forEach_suppress boxes iouThreshold currentBox indices =
     fold (forEach_step boxes iouThreshold currentBox) [0..<length indices] (Inr indices)"

text \<open>
  The suppression pass of \<open>yolo-worker.js\<close>:
  \<open>for (let i = indices.length - 1; i >= 0; i--) { if (calculateIoU(currentBox,
  boxes[indices[i]]) > iouThreshold) indices.splice(i, 1); }\<close>.
  There is no bounds check here: \<open>indices[i]\<close> past the end would be \<open>undefined\<close>,
  \<open>boxes[undefined]\<close> likewise, and \<open>calculateIoU\<close> would throw.
\<close>

definition backward_step ::
  "box list \<Rightarrow> real \<Rightarrow> box option \<Rightarrow> nat \<Rightarrow> error + nat list \<Rightarrow> error + nat list" where
  "backward_step boxes iouThreshold currentBox i acc =
     (case acc of
        Inl e \<Rightarrow> Inl e
      | Inr indices \<Rightarrow>
          (case calculateIoU_at currentBox
                  (case lookup indices i of None \<Rightarrow> None | Some idx \<Rightarrow> lookup boxes idx) of
             Inl e \<Rightarrow> Inl e
           | Inr iou \<Rightarrow>
               if js_gt iou iouThreshold then Inr (splice1 i indices)
               else Inr indices))"

definition backward_suppress ::
  "box list \<Rightarrow> real \<Rightarrow> box option \<Rightarrow> nat list \<Rightarrow> error + nat list" where
  "backward_suppress boxes iouThreshold currentBox indices =
     fold (backward_step boxes iouThreshold currentBox) (rev [0..<length indices]) (Inr indices)"

text \<open>Neither pass ever lengthens the candidate list, so each loop below ends.\<close>

lemma splice1_length: "length (splice1 i xs) \<le> length xs"
  by (simp add: splice1_def)

lemma forEach_step_length:
  "forEach_step boxes t cb i (Inr ind) = Inr ind' \<Longrightarrow> length ind' \<le> length ind"
  using splice1_length [of i ind]
  by (auto simp: forEach_step_def split: option.splits sum.splits if_splits)

lemma backward_step_length:
  "backward_step boxes t cb i (Inr ind) = Inr ind' \<Longrightarrow> length ind' \<le> length ind"
  using splice1_length [of i ind]
  by (auto simp: backward_step_def split: option.splits sum.splits if_splits)

lemma fold_forEach_step_Inl: "fold (forEach_step boxes t cb) ks (Inl e) = Inl e"
  by (induction ks) (simp_all add: forEach_step_def)

lemma fold_backward_step_Inl: "fold (backward_step boxes t cb) ks (Inl e) = Inl e"
  by (induction ks) (simp_all add: backward_step_def)

lemma fold_forEach_step_length:
  "fold (forEach_step boxes t cb) ks (Inr ind) = Inr ind' \<Longrightarrow> length ind' \<le> length ind"
proof (induction ks arbitrary: ind)
  case Nil
  then show ?case by simp
next
  case (Cons k ks)
  show ?case
  proof (cases "forEach_step boxes t cb k (Inr ind)")
    case (Inl e)
    with Cons.prems show ?thesis by (simp add: fold_forEach_step_Inl)
  next
    case (Inr mid)
    with Cons.prems have "length ind' \<le> length mid" by (simp add: Cons.IH)
    moreover have "length mid \<le> length ind" using Inr by (rule forEach_step_length)
    ultimately show ?thesis by simp
  qed
qed

lemma fold_backward_step_length:
  "fold (backward_step boxes t cb) ks (Inr ind) = Inr ind' \<Longrightarrow> length ind' \<le> length ind"
proof (induction ks arbitrary: ind)
  case Nil
  then show ?case by simp
next
  case (Cons k ks)
  show ?case
  proof (cases "backward_step boxes t cb k (Inr ind)")
    case (Inl e)
    with Cons.prems show ?thesis by (simp add: fold_backward_step_Inl)
  next
    case (Inr mid)
    with Cons.prems have "length ind' \<le> length mid" by (simp add: Cons.IH)
    moreover have "length mid \<le> length ind" using Inr by (rule backward_step_length)
    ultimately show ?thesis by simp
  qed
qed

lemma forEach_suppress_length:
  "forEach_suppress boxes t cb ind = Inr ind' \<Longrightarrow> length ind' \<le> length ind"
  unfolding forEach_suppress_def by (rule fold_forEach_step_length)

lemma backward_suppress_length:
  "backward_suppress boxes t cb ind = Inr ind' \<Longrightarrow> length ind' \<le> length ind"
  unfolding backward_suppress_def by (rule fold_backward_step_length)

text \<open>
  The \<open>while\<close> loop of \<open>nonMaxSuppression\<close> in \<open>main.js\<close>:
  \<open>indices.shift()\<close> takes the head, \<open>selected.push\<close> appends it.
\<close>

function nms_while ::
  "box list \<Rightarrow> real \<Rightarrow> int \<Rightarrow> nat list \<Rightarrow> nat list \<Rightarrow> error + nat list" where
  "nms_while boxes iouThreshold maxDetections indices selected =
     (if indices \<noteq> [] \<and> int (length selected) < maxDetections then
        (case forEach_suppress boxes iouThreshold (lookup boxes (hd indices)) (tl indices) of
           Inl e \<Rightarrow> Inl e
         | Inr indices' \<Rightarrow>
             nms_while boxes iouThreshold maxDetections indices' (selected @ [hd indices]))
      else Inr selected)"
  by pat_completeness auto
termination
proof (relation "measure (\<lambda>(boxes, iouThreshold, maxDetections, indices, selected). length indices)")
  show "wf (measure (\<lambda>(boxes, iouThreshold, maxDetections, indices, selected). length indices))"
    by simp
next
  fix boxes :: "box list" and iouThreshold :: real and maxDetections :: int
    and indices selected indices' :: "nat list"
  assume "indices \<noteq> [] \<and> int (length selected) < maxDetections"
    and "forEach_suppress boxes iouThreshold (lookup boxes (hd indices)) (tl indices) = Inr indices'"
  then have "length indices' \<le> length (tl indices)" and "indices \<noteq> []"
    by (auto dest: forEach_suppress_length)
  then show "((boxes, iouThreshold, maxDetections, indices', selected @ [hd indices]),
              (boxes, iouThreshold, maxDetections, indices, selected))
             \<in> measure (\<lambda>(boxes, iouThreshold, maxDetections, indices, selected). length indices)"
    by (cases indices) auto
qed

definition nonMaxSuppression :: "box list \<Rightarrow> real list \<Rightarrow> real \<Rightarrow> int \<Rightarrow> error + nat list" where
  "nonMaxSuppression boxes scores iouThreshold maxDetections =
     nms_while boxes iouThreshold maxDetections (sortedIndices scores) []"

text \<open>The same loop in \<open>yolo-worker.js\<close>, over the backward pass.\<close>

function worker_nms_while ::
  "box list \<Rightarrow> real \<Rightarrow> int \<Rightarrow> nat list \<Rightarrow> nat list \<Rightarrow> error + nat list" where
  "worker_nms_while boxes iouThreshold maxDetections indices selected =
     (if indices \<noteq> [] \<and> int (length selected) < maxDetections then
        (case backward_suppress boxes iouThreshold (lookup boxes (hd indices)) (tl indices) of
           Inl e \<Rightarrow> Inl e
         | Inr indices' \<Rightarrow>
             worker_nms_while boxes iouThreshold maxDetections indices' (selected @ [hd indices]))
      else Inr selected)"
  by pat_completeness auto
termination
proof (relation "measure (\<lambda>(boxes, iouThreshold, maxDetections, indices, selected). length indices)")
  show "wf (measure (\<lambda>(boxes, iouThreshold, maxDetections, indices, selected). length indices))"
    by simp
next
  fix boxes :: "box list" and iouThreshold :: real and maxDetections :: int
    and indices selected indices' :: "nat list"
  assume "indices \<noteq> [] \<and> int (length selected) < maxDetections"
    and "backward_suppress boxes iouThreshold (lookup boxes (hd indices)) (tl indices) = Inr indices'"
  then have "length indices' \<le> length (tl indices)" and "indices \<noteq> []"
    by (auto dest: backward_suppress_length)
  then show "((boxes, iouThreshold, maxDetections, indices', selected @ [hd indices]),
              (boxes, iouThreshold, maxDetections, indices, selected))
             \<in> measure (\<lambda>(boxes, iouThreshold, maxDetections, indices, selected). length indices)"
    by (cases indices) auto
qed

definition worker_nonMaxSuppression ::
  "box list \<Rightarrow> real list \<Rightarrow> real \<Rightarrow> int \<Rightarrow> error + nat list" where
  "worker_nonMaxSuppression boxes scores iouThreshold maxDetections =
     worker_nms_while boxes iouThreshold maxDetections (sortedIndices scores) []"

declare nms_while.simps [simp del] worker_nms_while.simps [simp del]

text \<open>
  The test of both passes on boxes given by index: the box at \<open>idx\<close> overlaps
  the accepted box at \<open>cur\<close> beyond the threshold.
\<close>

definition suppressed :: "box list \<Rightarrow> real \<Rightarrow> nat \<Rightarrow> nat \<Rightarrow> bool" where
  "suppressed boxes t cur idx = js_gt (calculateIoU (boxes ! cur) (boxes ! idx)) t"

section \<open>The output decoder\<close>

text \<open>\<open>MODEL_CONFIG\<close>, the same constant in both files.\<close>

record model_config =
  modelUrl :: string
  inputSize :: nat
  scoreThreshold :: real
  iouThreshold :: real
  maxDetections :: int

definition MODEL_CONFIG :: model_config where
  "MODEL_CONFIG =
     \<lparr>modelUrl = ''/static/model.json'', inputSize = 640, scoreThreshold = 25 / 100,
      iouThreshold = 45 / 100, maxDetections = 100\<rparr>"

text \<open>
  \<open>output[0]\<close> of \<open>await outputTensor.array()\<close>: the nested array of a tensor of
  shape \<open>[1, rows, cols]\<close> is rectangular, so it is a shape and an entry for every
  position; \<open>val out r i\<close> is \<open>output[0][r][i]\<close> and is read below the shape only.
\<close>

record rawOutput =
  rows :: nat
  cols :: nat
  val :: "nat \<Rightarrow> nat \<Rightarrow> real"

text \<open>
  A detection \<open>{x, y, width, height, score, class}\<close>: a box with a score and a class
  index (\<open>class\<close> in the source).
\<close>

record detection = box +
  score :: real
  classIndex :: nat

text \<open>
  \<open>numClasses = output[0].length - 4\<close>; where it is negative the class loop does
  not run, as with \<open>0\<close>.
\<close>

definition numClasses :: "rawOutput \<Rightarrow> nat" where
  "numClasses out = rows out - 4"

text \<open>
  The class loop: \<open>let maxScore = 0; let maxClass = 0; for (c ...) { const score =
  output[0][4 + c][i]; if (score > maxScore) { maxScore = score; maxClass = c; } }\<close>.
\<close>

definition classStep :: "rawOutput \<Rightarrow> nat \<Rightarrow> nat \<Rightarrow> real \<times> nat \<Rightarrow> real \<times> nat" where
  "classStep out i c acc =
     (if fst acc < val out (4 + c) i then (val out (4 + c) i, c) else acc)"

definition classScan :: "rawOutput \<Rightarrow> nat \<Rightarrow> real \<times> nat" where
  "classScan out i = fold (classStep out i) [0..<numClasses out] (0, 0)"

text \<open>The body of the anchor loop: the detection pushed for anchor \<open>i\<close>, if any.\<close>

definition decodeAnchor :: "rawOutput \<Rightarrow> real \<Rightarrow> real \<Rightarrow> nat \<Rightarrow> detection option" where
  "decodeAnchor out imgWidth imgHeight i =
     (let cx = val out 0 i;
          cy = val out 1 i;
          w = val out 2 i;
          h = val out 3 i;
          maxScore = fst (classScan out i);
          maxClass = snd (classScan out i)
      in if scoreThreshold MODEL_CONFIG < maxScore then
           Some \<lparr>box_x = (cx - w / 2) * imgWidth, box_y = (cy - h / 2) * imgHeight,
                 width = w * imgWidth, height = h * imgHeight,
                 score = maxScore, classIndex = maxClass\<rparr>
         else None)"

definition pushDetection ::
  "rawOutput \<Rightarrow> real \<Rightarrow> real \<Rightarrow> nat \<Rightarrow> detection list \<Rightarrow> detection list" where
  "pushDetection out imgWidth imgHeight i detections =
     (case decodeAnchor out imgWidth imgHeight i of
        None \<Rightarrow> detections
      | Some d \<Rightarrow> detections @ [d])"

text \<open>
  The anchor loop of \<open>processYOLOOutput\<close> (the same text in both files). With no
  row at all, \<open>output[0][0].length\<close> throws; with fewer than four rows and an
  anchor to read, \<open>output[0][r][i]\<close> throws at the first missing row.
\<close>

definition decodeDetections :: "rawOutput \<Rightarrow> real \<Rightarrow> real \<Rightarrow> error + detection list" where
  "decodeDetections out imgWidth imgHeight =
     (if rows out = 0 then Inl TypeError
      else if rows out < 4 \<and> 0 < cols out then Inl TypeError
      else Inr (fold (pushDetection out imgWidth imgHeight) [0..<cols out] []))"

text \<open>
  \<open>selectedIndices.map(idx => detections[idx])\<close>; an index past the end would put
  \<open>undefined\<close> into the result, hence the options.
\<close>

definition selectDetections :: "detection list \<Rightarrow> nat list \<Rightarrow> detection option list" where
  "selectDetections detections selectedIndices = map (lookup detections) selectedIndices"

text \<open>\<open>processYOLOOutput\<close> of \<open>main.js\<close> and of \<open>yolo-worker.js\<close>.\<close>

definition processYOLOOutput ::
  "rawOutput \<Rightarrow> real \<Rightarrow> real \<Rightarrow> error + detection option list" where
  "processYOLOOutput out imgWidth imgHeight =
     (case decodeDetections out imgWidth imgHeight of
        Inl e \<Rightarrow> Inl e
      | Inr detections \<Rightarrow>
          (case nonMaxSuppression (map box.truncate detections) (map score detections)
                  (iouThreshold MODEL_CONFIG) (maxDetections MODEL_CONFIG) of
             Inl e \<Rightarrow> Inl e
           | Inr selectedIndices \<Rightarrow> Inr (selectDetections detections selectedIndices)))"

definition worker_processYOLOOutput ::
  "rawOutput \<Rightarrow> real \<Rightarrow> real \<Rightarrow> error + detection option list" where
  "worker_processYOLOOutput out imgWidth imgHeight =
     (case decodeDetections out imgWidth imgHeight of
        Inl e \<Rightarrow> Inl e
      | Inr detections \<Rightarrow>
          (case worker_nonMaxSuppression (map box.truncate detections) (map score detections)
                  (iouThreshold MODEL_CONFIG) (maxDetections MODEL_CONFIG) of
             Inl e \<Rightarrow> Inl e
           | Inr selectedIndices \<Rightarrow> Inr (selectDetections detections selectedIndices)))"

text \<open>
  Two synthetic outputs with one anchor each. In the first the confidences of the
  three classes are \<open>0.1\<close>, \<open>0.9\<close>, \<open>0.9\<close>; in the second the only class has
  confidence \<open>0.25\<close>, the threshold itself.
\<close>

definition tie_example :: rawOutput where
  "tie_example =
     \<lparr>rows = 7, cols = 1,
      val = (\<lambda>r i. if r = 0 then 1 / 2 else if r = 1 then 1 / 2
                    else if r = 2 then 1 / 5 else if r = 3 then 2 / 5
                    else if r = 4 then 1 / 10 else 9 / 10)\<rparr>"

definition threshold_example :: rawOutput where
  "threshold_example = \<lparr>rows = 5, cols = 1, val = (\<lambda>r i. 1 / 4)\<rparr>"

section \<open>Result cache, telemetry and the orchestrator\<close>

text \<open>Decimal rendering of a count, as a template string or \<open>toFixed\<close> prints it.\<close>

definition digit_char :: "nat \<Rightarrow> char" where
  "digit_char d = ''0123456789'' ! (d mod 10)"

fun string_of_nat :: "nat \<Rightarrow> string" where
  "string_of_nat n =
     (if n < 10 then [digit_char n] else string_of_nat (n div 10) @ [digit_char (n mod 10)])"

declare string_of_nat.simps [simp del]

text \<open>
  \<open>v.toFixed(1)\<close> for \<open>v \<ge> 0\<close>: the integer \<open>n\<close> with \<open>n / 10\<close> nearest to \<open>v\<close>
  (the larger one on a tie), printed with one digit after the point. \<open>v\<close> is the
  exact value of the double that \<open>toFixed\<close> is applied to.
\<close>

definition fixed1_tenths :: "real \<Rightarrow> nat" where
  "fixed1_tenths v = nat \<lfloor>v * 10 + 1 / 2\<rfloor>"

definition toFixed1 :: "real \<Rightarrow> string" where
  "toFixed1 v =
     (let n = fixed1_tenths v
      in string_of_nat (n div 10) @ ''.'' @ string_of_nat (n mod 10))"

text \<open>
  The percentages of the telemetry are computed in double precision:
  \<open>(a / b) * 100\<close> is the quotient rounded to a double, times \<open>100\<close>, rounded to a
  double again. A positive double is a mantissa of 53 bits and an exponent, its
  value \<open>m * 2 ^ e\<close>; rounding is to the nearest double, to the even mantissa on a
  tie. The counters are integers below \<open>2 ^ 53\<close>, which are doubles themselves, and
  their quotients and percentages are far from overflow and underflow.
\<close>

text \<open>The number of binary digits of a positive integer.\<close>

function bit_length :: "int \<Rightarrow> nat" where
  "bit_length n = (if n \<le> 0 then 0 else Suc (bit_length (n div 2)))"
  by pat_completeness auto
termination
  by (relation "measure nat") auto

declare bit_length.simps [simp del]

text \<open>The integer nearest to \<open>p / q\<close>, the even one on a tie.\<close>

definition round_ratio :: "int \<Rightarrow> int \<Rightarrow> int" where
  "round_ratio p q =
     (let d = p div q; r = p mod q
      in if 2 * r < q then d
         else if q < 2 * r then d + 1
         else if even d then d else d + 1)"

text \<open>
  The double nearest to \<open>(p / q) * 2 ^ e\<close> for positive \<open>p\<close> and \<open>q\<close>. With
  \<open>s0\<close> as below, \<open>(p / q) / 2 ^ s0\<close> lies between \<open>2 ^ 52\<close> and \<open>2 ^ 54\<close>; the
  shift \<open>s\<close> brings it below \<open>2 ^ 53\<close>, where it is rounded to an integer.
\<close>

definition scaled_num :: "int \<Rightarrow> int \<Rightarrow> int" where
  "scaled_num p s = p * 2 ^ nat (- s)"

definition scaled_den :: "int \<Rightarrow> int \<Rightarrow> int" where
  "scaled_den q s = q * 2 ^ nat s"

definition nearest_double :: "int \<Rightarrow> int \<Rightarrow> int \<Rightarrow> int \<times> int" where
  "nearest_double p q e =
     (let s0 = int (bit_length p) - int (bit_length q) - 53;
          s = (if 2 ^ 53 * scaled_den q s0 \<le> scaled_num p s0 then s0 + 1 else s0)
      in (round_ratio (scaled_num p s) (scaled_den q s), e + s))"

definition double_value :: "int \<times> int \<Rightarrow> real" where
  "double_value d =
     (if 0 \<le> snd d then real_of_int (fst d) * 2 ^ nat (snd d)
      else real_of_int (fst d) / 2 ^ nat (- snd d))"

text \<open>
  \<open>((a / b) * 100).toFixed(1)\<close> on counters. With \<open>b = 0\<close> the quotient would be
  \<open>NaN\<close> or \<open>Infinity\<close>, which \<open>toFixed\<close> prints by name; \<open>getPerformanceMetrics\<close>
  never asks for it.
\<close>

definition percentage :: "nat \<Rightarrow> nat \<Rightarrow> string" where
  "percentage a b =
     (if b = 0 then (if a = 0 then ''NaN'' else ''Infinity'')
      else if a = 0 then toFixed1 0
      else
        (let quotient = nearest_double (int a) (int b) 0;
             percent = nearest_double (fst quotient * 100) 1 (snd quotient)
         in toFixed1 (double_value percent)))"

text \<open>
  An image element, as far as the pipeline reads it; \<open>width\<close> and \<open>height\<close> of the
  source are \<open>img_width\<close> and \<open>img_height\<close> here.
\<close>

record imageElement =
  src :: string
  img_width :: nat
  img_height :: nat
  naturalWidth :: nat
  naturalHeight :: nat

text \<open>\<open>a || b || 0\<close> on numbers: the first one that is not zero.\<close>

definition or_else :: "nat \<Rightarrow> nat \<Rightarrow> nat" where
  "or_else a b = (if a \<noteq> 0 then a else b)"

definition generateImageCacheKey :: "imageElement \<Rightarrow> string" where
  "generateImageCacheKey imageElement =
     (let w = or_else (img_width imageElement) (or_else (naturalWidth imageElement) 0);
          h = or_else (img_height imageElement) (or_else (naturalHeight imageElement) 0)
      in take 50 (src imageElement) @ ''_'' @ string_of_nat w @ ''x'' @ string_of_nat h)"

text \<open>
  \<open>detectionCache\<close> is a \<open>Map\<close>: its entries in insertion order. \<open>set\<close> on a
  present key replaces the value in place, on an absent key it appends the entry.
\<close>

type_synonym cache = "(string \<times> detection list) list"

definition MAX_CACHE_SIZE :: nat where
  "MAX_CACHE_SIZE = 10"

definition cache_get :: "cache \<Rightarrow> string \<Rightarrow> detection list option" where
  "cache_get c k = map_of c k"

fun cache_set :: "cache \<Rightarrow> string \<Rightarrow> detection list \<Rightarrow> cache" where
  "cache_set [] k v = [(k, v)]"
| "cache_set (p # ps) k v = (if fst p = k then (k, v) # ps else p # cache_set ps k v)"

definition cache_delete :: "cache \<Rightarrow> string \<Rightarrow> cache" where
  "cache_delete c k = filter (\<lambda>p. fst p \<noteq> k) c"

text \<open>
  \<open>if (detectionCache.size >= MAX_CACHE_SIZE) { const firstKey =
  detectionCache.keys().next().value; detectionCache.delete(firstKey); }
  detectionCache.set(cacheKey, detections);\<close>
  (on an empty map \<open>firstKey\<close> is \<open>undefined\<close> and nothing is deleted).
\<close>

definition cacheStore :: "cache \<Rightarrow> string \<Rightarrow> detection list \<Rightarrow> cache" where
  "cacheStore c cacheKey detections =
     cache_set
       (if MAX_CACHE_SIZE \<le> length c then
          (case c of [] \<Rightarrow> c | p # ps \<Rightarrow> cache_delete c (fst p))
        else c)
       cacheKey detections"

record performanceMetrics_t =
  modelLoadTime :: real
  inferenceCount :: nat
  totalInferenceTime :: real
  averageInferenceTime :: real
  cachedResults :: nat
  workerUsage :: nat

text \<open>
  The process-wide variables: \<open>useWebWorker\<close>, whether \<open>yoloWorker\<close> holds a worker
  (it is \<open>null\<close> otherwise), the counters and the cache.
\<close>

record state =
  useWebWorker :: bool
  yoloWorker :: bool
  performanceMetrics :: performanceMetrics_t
  detectionCache :: cache

definition initialState :: state where
  "initialState =
     \<lparr>useWebWorker = True, yoloWorker = False,
      performanceMetrics =
        \<lparr>modelLoadTime = 0, inferenceCount = 0, totalInferenceTime = 0,
         averageInferenceTime = 0, cachedResults = 0, workerUsage = 0\<rparr>,
      detectionCache = []\<rparr>"

text \<open>
  What the environment does for one call of \<open>detectMedicine\<close>: how
  \<open>detectMedicineWithWorker\<close> and \<open>detectMedicineMainThread\<close> would settle (a
  rejection is \<open>Inl\<close>), how a second \<open>detectMedicineMainThread\<close> of the same
  call would settle, and the time \<open>performance.now() - startTime\<close> measured at the
  end.
\<close>

record call_env =
  workerResult :: "error + detection list"
  mainThreadResult :: "error + detection list"
  mainThreadRetryResult :: "error + detection list"
  inferenceTime :: real

datatype call = WithWorker | MainThread

text \<open>The result of one call, the inference functions it invoked, and the state left.\<close>

type_synonym outcome = "((error + detection list) \<times> call list) \<times> state"

text \<open>The statements after the inference within the \<open>try\<close> block.\<close>

definition recordInference :: "state \<Rightarrow> string \<Rightarrow> detection list \<Rightarrow> real \<Rightarrow> state" where
  "recordInference s cacheKey detections t =
     (let m = performanceMetrics s;
          n = inferenceCount m + 1;
          total = totalInferenceTime m + t
      in s\<lparr>detectionCache := cacheStore (detectionCache s) cacheKey detections,
            performanceMetrics :=
              m\<lparr>inferenceCount := n, totalInferenceTime := total,
                averageInferenceTime := total / real n\<rparr>\<rparr>)"

text \<open>
  A call of \<open>detectMedicine\<close> runs in two stretches, with the \<open>await\<close> of the
  inference between them; other calls and events may run in between, and the
  second stretch reads the process-wide variables as they are then.

  The first stretch, up to the \<open>await\<close>: a cache hit returns at once; otherwise
  the call invokes the worker or the main thread, by the flags as they are now.
\<close>

datatype dispatched = Cached "detection list" | Awaiting call

definition detectDispatch :: "state \<Rightarrow> imageElement \<Rightarrow> dispatched \<times> state" where
  "detectDispatch s imageElement =
     (case cache_get (detectionCache s) (generateImageCacheKey imageElement) of
        Some cached \<Rightarrow>
          (Cached cached,
           s\<lparr>performanceMetrics := (performanceMetrics s)
                \<lparr>cachedResults := cachedResults (performanceMetrics s) + 1\<rparr>\<rparr>)
      | None \<Rightarrow>
          if useWebWorker s \<and> yoloWorker s then
            (Awaiting WithWorker,
             s\<lparr>performanceMetrics := (performanceMetrics s)
                  \<lparr>workerUsage := workerUsage (performanceMetrics s) + 1\<rparr>\<rparr>)
          else (Awaiting MainThread, s))"

text \<open>
  The \<open>catch\<close> block, in the state \<open>s\<close> in which the rejection is handled:
  \<open>if (useWebWorker && yoloWorker) { useWebWorker = false;
  return await detectMedicineMainThread(imageElement); } throw error;\<close>
  Nothing is read or written after the \<open>await\<close> of the retry, so its result is
  returned here. The retry is the second run on the main thread if the call had
  invoked the main thread before.
\<close>

definition catchBlock :: "state \<Rightarrow> call_env \<Rightarrow> error \<Rightarrow> call list \<Rightarrow> outcome" where
  "catchBlock s env e called =
     (if useWebWorker s \<and> yoloWorker s then
        ((if MainThread \<in> set called then mainThreadRetryResult env else mainThreadResult env,
          called @ [MainThread]),
         s\<lparr>useWebWorker := False\<rparr>)
      else ((Inl e, called), s))"

text \<open>The promise that the call awaits.\<close>

definition awaited :: "call \<Rightarrow> call_env \<Rightarrow> error + detection list" where
  "awaited c env = (case c of WithWorker \<Rightarrow> workerResult env | MainThread \<Rightarrow> mainThreadResult env)"

text \<open>
  The second stretch, from the settling of the awaited promise, in the state \<open>s\<close>
  of that moment: the rest of the \<open>try\<close> block, or the \<open>catch\<close> block.
\<close>

definition detectSettle :: "state \<Rightarrow> string \<Rightarrow> call \<Rightarrow> call_env \<Rightarrow> outcome" where
  "detectSettle s cacheKey c env =
     (case awaited c env of
        Inr detections \<Rightarrow>
          ((Inr detections, [c]), recordInference s cacheKey detections (inferenceTime env))
      | Inl e \<Rightarrow> catchBlock s env e [c])"

text \<open>
  \<open>detectMedicine\<close> when nothing else runs during its \<open>await\<close>. A cached value is
  never \<open>undefined\<close>, so \<open>detectionCache.has(cacheKey)\<close> followed by
  \<open>detectionCache.get(cacheKey)\<close> is the one lookup of the first stretch.
\<close>

definition detectMedicine :: "state \<Rightarrow> imageElement \<Rightarrow> call_env \<Rightarrow> outcome" where
  "detectMedicine s imageElement env =
     (case detectDispatch s imageElement of
        (Cached cached, s1) \<Rightarrow> ((Inr cached, []), s1)
      | (Awaiting c, s1) \<Rightarrow> detectSettle s1 (generateImageCacheKey imageElement) c env)"

text \<open>
  \<open>initYOLOWorker\<close>, given whether \<open>window.Worker\<close> exists and whether
  \<open>new Worker\<close> succeeds; it returns whether it returns a worker.
\<close>

definition initYOLOWorker :: "state \<Rightarrow> bool \<Rightarrow> bool \<Rightarrow> bool \<times> state" where
  "initYOLOWorker s workerSupported workerStarts =
     (if \<not> useWebWorker s \<or> \<not> workerSupported then (False, s\<lparr>useWebWorker := False\<rparr>)
      else if workerStarts then (True, s\<lparr>yoloWorker := True\<rparr>)
      else (False, s\<lparr>useWebWorker := False\<rparr>))"

text \<open>\<open>preloadModel\<close> on the scan page, as far as it touches these variables.\<close>

definition preloadModel :: "state \<Rightarrow> bool \<Rightarrow> bool \<Rightarrow> state" where
  "preloadModel s workerSupported workerStarts =
     (if useWebWorker s then
        (let r = initYOLOWorker s workerSupported workerStarts
         in (snd r)\<lparr>yoloWorker := fst r\<rparr>)
      else s)"

text \<open>The \<open>error\<close> listener of the worker.\<close>

definition workerErrorEvent :: "state \<Rightarrow> state" where
  "workerErrorEvent s = s\<lparr>useWebWorker := False, yoloWorker := False\<rparr>"

definition resetPerformanceMetrics :: "state \<Rightarrow> state" where
  "resetPerformanceMetrics s =
     s\<lparr>performanceMetrics :=
         \<lparr>modelLoadTime = 0, inferenceCount = 0, totalInferenceTime = 0,
          averageInferenceTime = 0, cachedResults = 0, workerUsage = 0\<rparr>,
       detectionCache := []\<rparr>"

text \<open>
  The two derived entries of \<open>getPerformanceMetrics\<close> that are computed, with the
  entries copied from the state.
\<close>

record metrics_snapshot =
  counters :: performanceMetrics_t
  workerEnabled :: bool
  workerActive :: bool
  cacheSize :: nat
  workerUsagePercent :: string
  cacheHitRate :: string

definition getPerformanceMetrics :: "state \<Rightarrow> metrics_snapshot" where
  "getPerformanceMetrics s =
     (let m = performanceMetrics s
      in \<lparr>counters = m,
          workerEnabled = useWebWorker s,
          workerActive = yoloWorker s,
          cacheSize = length (detectionCache s),
          workerUsagePercent =
            (if 0 < inferenceCount m then
               percentage (workerUsage m) (inferenceCount m) @ ''%''
             else ''0%''),
          cacheHitRate =
            (if 0 < inferenceCount m then
               percentage (cachedResults m) (inferenceCount m + cachedResults m) @ ''%''
             else ''0%'')\<rparr>)"

text \<open>
  What happens to the process over time: a sequence of these events. \<open>Detect\<close>
  is a call that nothing overlaps; \<open>Dispatch\<close> and \<open>Settle\<close> are the two
  stretches of a call that other events may overlap, \<open>Settle\<close> naming the image
  and the inference function of the call that settles. A call that is dispatched
  and never settled stays pending, as after the worker stops answering.
\<close>

datatype event =
    Detect imageElement call_env
  | Dispatch imageElement
  | Settle imageElement call call_env
  | Preload bool bool
  | WorkerError
  | Reset

fun step :: "state \<Rightarrow> event \<Rightarrow> state" where
  "step s (Detect imageElement env) = snd (detectMedicine s imageElement env)"
| "step s (Dispatch imageElement) = snd (detectDispatch s imageElement)"
| "step s (Settle imageElement c env) =
     snd (detectSettle s (generateImageCacheKey imageElement) c env)"
| "step s (Preload workerSupported workerStarts) = preloadModel s workerSupported workerStarts"
| "step s WorkerError = workerErrorEvent s"
| "step s Reset = resetPerformanceMetrics s"


fun exec :: "state \<Rightarrow> event list \<Rightarrow> state" where
  "exec s [] = s"
| "exec s (e # es) = exec (step s e) es"


text \<open>
  Runs of calls: the \<open>Detect\<close> events of a list of calls, the cache keys of their
  images, and the calls whose inference succeeds in whichever context it runs.
\<close>

definition detects :: "(imageElement \<times> call_env) list \<Rightarrow> event list" where
  "detects calls = map (\<lambda>c. Detect (fst c) (snd c)) calls"

definition keys_of :: "(imageElement \<times> call_env) list \<Rightarrow> string list" where
  "keys_of calls = map (\<lambda>c. generateImageCacheKey (fst c)) calls"

definition succeeds :: "imageElement \<times> call_env \<Rightarrow> bool" where
  "succeeds c = (\<not> isl (workerResult (snd c)) \<and> \<not> isl (mainThreadResult (snd c)))"

text \<open>
  Concrete inputs: images that differ in their width, a detection list, an
  environment in which inference succeeds and one in which the worker reports an
  error while the main thread succeeds; eleven calls on distinct images; the state
  once \<open>preloadModel\<close> has started the worker; the state after two calls were
  dispatched to the worker and the first was rejected and retried; two inferences
  followed by one cache hit, and three followed by one.
\<close>

definition scan_image :: "nat \<Rightarrow> imageElement" where
  "scan_image n =
     \<lparr>src = ''blob:scan'', img_width = n, img_height = 480,
      naturalWidth = n, naturalHeight = 480\<rparr>"

definition one_detection :: "detection list" where
  "one_detection =
     [\<lparr>box_x = 256, box_y = 144, width = 128, height = 192, score = 9 / 10, classIndex = 1\<rparr>]"

definition success_env :: call_env where
  "success_env =
     \<lparr>workerResult = Inr one_detection, mainThreadResult = Inr one_detection,
      mainThreadRetryResult = Inr one_detection, inferenceTime = 1500\<rparr>"

definition worker_failure_env :: call_env where
  "worker_failure_env =
     \<lparr>workerResult = Inl (Failure ''Model not loaded''), mainThreadResult = Inr one_detection,
      mainThreadRetryResult = Inr one_detection, inferenceTime = 1500\<rparr>"

definition eleven_calls :: "(imageElement \<times> call_env) list" where
  "eleven_calls = map (\<lambda>n. (scan_image n, success_env)) [1..<12]"

definition worker_state :: state where
  "worker_state = preloadModel initialState True True"


definition two_and_one :: "event list" where
  "two_and_one =
     [Detect (scan_image 1) success_env, Detect (scan_image 2) success_env,
      Detect (scan_image 2) success_env]"

definition three_and_one :: "event list" where
  "three_and_one =
     [Detect (scan_image 1) success_env, Detect (scan_image 2) success_env,
      Detect (scan_image 3) success_env, Detect (scan_image 2) success_env]"

section \<open>Properties of the IoU computation\<close>






text \<open>
  C10. The IoU computation is commutative: \<open>calculateIoU(a, b)\<close> and
  \<open>calculateIoU(b, a)\<close> return the same value for every pair of boxes (the same
  number, or \<open>NaN\<close> on both sides where the denominator is zero).
\<close>

theorem calculateIoU_commute: "calculateIoU a b = calculateIoU b a"
  by (simp add: calculateIoU_def intersection_def Let_def max.commute min.commute add.commute)

section \<open>Properties of the suppression\<close>

lemma lookup_nth: "lookup xs i = (if i < length xs then Some (xs ! i) else None)"
  by (induction xs i rule: lookup.induct) simp_all

text \<open>
  The backward pass of the worker is a filter: it removes exactly the candidates
  that overlap the accepted box beyond the threshold.
\<close>

lemma fold_backward_step_filter:
  "length pre = k \<Longrightarrow> \<forall>idx\<in>set pre. idx < length boxes \<Longrightarrow> cur < length boxes \<Longrightarrow>
   fold (backward_step boxes t (lookup boxes cur)) (rev [0..<k]) (Inr (pre @ suf))
     = Inr (filter (\<lambda>idx. \<not> suppressed boxes t cur idx) pre @ suf)"
proof (induction pre arbitrary: k suf rule: rev_induct)
  case Nil
  then show ?case by simp
next
  case (snoc a pre)
  then obtain k' where k: "k = Suc k'" and len: "length pre = k'" by auto
  have a: "a < length boxes" using snoc.prems by simp
  have look: "lookup ((pre @ [a]) @ suf) k' = Some a"
    using len by (simp add: lookup_nth nth_append)
  have sp: "splice1 k' ((pre @ [a]) @ suf) = pre @ suf"
    using len by (simp add: splice1_def)
  have step: "backward_step boxes t (lookup boxes cur) k' (Inr ((pre @ [a]) @ suf))
      = Inr (if suppressed boxes t cur a then pre @ suf else pre @ (a # suf))"
    unfolding backward_step_def using look sp a snoc.prems(3)
    by (simp add: calculateIoU_at_def lookup_nth suppressed_def)
  have IH: "\<And>s. fold (backward_step boxes t (lookup boxes cur)) (rev [0..<k']) (Inr (pre @ s))
              = Inr (filter (\<lambda>idx. \<not> suppressed boxes t cur idx) pre @ s)"
    using snoc.IH [OF len] snoc.prems by simp
  show ?case
    unfolding k using step IH by simp
qed

lemma backward_suppress_filter:
  assumes "\<forall>idx\<in>set indices. idx < length boxes" and "cur < length boxes"
  shows "backward_suppress boxes t (lookup boxes cur) indices
           = Inr (filter (\<lambda>idx. \<not> suppressed boxes t cur idx) indices)"
  unfolding backward_suppress_def
  using fold_backward_step_filter [of indices "length indices" boxes cur t "[]"] assms
  by simp

text \<open>
  Hence the worker returns a list in which no box overlaps an earlier accepted one
  beyond the threshold.
\<close>

lemma worker_nms_while_no_overlap:
  "\<forall>idx\<in>set indices. idx < length boxes \<Longrightarrow>
   sorted_wrt (\<lambda>a b. \<not> suppressed boxes t a b) selected \<Longrightarrow>
   \<forall>a\<in>set selected. \<forall>b\<in>set indices. \<not> suppressed boxes t a b \<Longrightarrow>
   \<exists>out. worker_nms_while boxes t m indices selected = Inr out
         \<and> sorted_wrt (\<lambda>a b. \<not> suppressed boxes t a b) out"
proof (induction boxes t m indices selected rule: worker_nms_while.induct)
  case (1 boxes t m indices selected)
  show ?case
  proof (cases "indices \<noteq> [] \<and> int (length selected) < m")
    case False
    then have "worker_nms_while boxes t m indices selected = Inr selected"
      by (subst worker_nms_while.simps) auto
    then show ?thesis
      using "1.prems"(2) by simp
  next
    case True
    then obtain h rest where ind: "indices = h # rest" by (cases indices) auto
    have h: "h < length boxes" and rest: "\<forall>idx\<in>set rest. idx < length boxes"
      using "1.prems"(1) ind by auto
    let ?keep = "filter (\<lambda>idx. \<not> suppressed boxes t h idx) rest"
    have pass: "backward_suppress boxes t (lookup boxes (hd indices)) (tl indices) = Inr ?keep"
      using backward_suppress_filter [OF rest h] ind by simp
    have v: "\<forall>idx\<in>set ?keep. idx < length boxes" using rest by simp
    have s: "sorted_wrt (\<lambda>a b. \<not> suppressed boxes t a b) (selected @ [hd indices])"
      using "1.prems"(2,3) ind by (simp add: sorted_wrt_append)
    have c: "\<forall>a\<in>set (selected @ [hd indices]). \<forall>b\<in>set ?keep. \<not> suppressed boxes t a b"
      using "1.prems"(3) ind by auto
    from "1.IH" [OF True pass v s c]
    show ?thesis
      using True pass by (simp add: worker_nms_while.simps [of boxes t m indices selected])
  qed
qed

lemma set_sortedIndices: "set (sortedIndices scores) = {0..<length scores}"
proof -
  have "set (sortedIndices scores) = snd ` set (zip scores [0..<length scores])"
    by (simp add: sortedIndices_def)
  also have "\<dots> = set (map snd (zip scores [0..<length scores]))"
    by (simp only: set_map)
  also have "map snd (zip scores [0..<length scores]) = [0..<length scores]"
    by (rule map_snd_zip) simp
  finally show ?thesis by simp
qed

lemma worker_nonMaxSuppression_no_overlap:
  assumes "length scores \<le> length boxes"
  shows "\<exists>out. worker_nonMaxSuppression boxes scores t m = Inr out
              \<and> sorted_wrt (\<lambda>a b. \<not> suppressed boxes t a b) out"
  unfolding worker_nonMaxSuppression_def
  using assms by (intro worker_nms_while_no_overlap) (simp_all add: set_sortedIndices)

text \<open>
  The example of the specification holds in both files: of two boxes with IoU \<open>0.9\<close>
  and scores \<open>0.8\<close> and \<open>0.6\<close>, at threshold \<open>0.45\<close>, only the first is returned.
\<close>

lemma nonMaxSuppression_two_boxes:
  assumes "calculateIoU a b = Fin (9 / 10)"
  shows "nonMaxSuppression [a, b] [8 / 10, 6 / 10] (45 / 100) m
           = (if 0 < m then Inr [0] else Inr [])"
  using assms
  by (simp add: nonMaxSuppression_def sortedIndices_def nms_while.simps forEach_suppress_def
        forEach_step_def calculateIoU_at_def splice1_def)

lemma worker_nonMaxSuppression_two_boxes:
  assumes "calculateIoU a b = Fin (9 / 10)"
  shows "worker_nonMaxSuppression [a, b] [8 / 10, 6 / 10] (45 / 100) m
           = (if 0 < m then Inr [0] else Inr [])"
  using assms
  by (simp add: worker_nonMaxSuppression_def sortedIndices_def worker_nms_while.simps
        backward_suppress_def backward_step_def calculateIoU_at_def splice1_def)

text \<open>
  C1 at a failing input of \<open>main.js\<close>. Three boxes with scores \<open>0.9\<close>, \<open>0.8\<close>,
  \<open>0.7\<close>; the second and the third each overlap the first with IoU \<open>9/11\<close>, above
  the threshold \<open>0.45\<close>. After box \<open>0\<close> is accepted the pass over the candidates
  \<open>[1, 2]\<close> removes \<open>1\<close> at position \<open>0\<close>, which moves \<open>2\<close> to position \<open>0\<close>; the
  visit goes on at position \<open>1\<close>, which no longer exists. Candidate \<open>2\<close> survives
  the round and is returned.
\<close>

theorem nonMaxSuppression_keeps_overlapping_box:
  "forEach_suppress
      [\<lparr>box_x = 0, box_y = 0, width = 10, height = 10\<rparr>,
       \<lparr>box_x = 1, box_y = 0, width = 10, height = 10\<rparr>,
       \<lparr>box_x = 0, box_y = 1, width = 10, height = 10\<rparr>]
      (45 / 100) (Some \<lparr>box_x = 0, box_y = 0, width = 10, height = 10\<rparr>) [1, 2] = Inr [2]
   \<and> calculateIoU \<lparr>box_x = 0, box_y = 0, width = 10, height = 10\<rparr>
                  \<lparr>box_x = 0, box_y = 1, width = 10, height = 10\<rparr> = Fin (9 / 11)
   \<and> js_gt (calculateIoU \<lparr>box_x = 0, box_y = 0, width = 10, height = 10\<rparr>
                         \<lparr>box_x = 0, box_y = 1, width = 10, height = 10\<rparr>) (45 / 100)
   \<and> nonMaxSuppression
        [\<lparr>box_x = 0, box_y = 0, width = 10, height = 10\<rparr>,
         \<lparr>box_x = 1, box_y = 0, width = 10, height = 10\<rparr>,
         \<lparr>box_x = 0, box_y = 1, width = 10, height = 10\<rparr>]
        [9 / 10, 8 / 10, 7 / 10] (45 / 100) 100 = Inr [0, 2]"
  by (simp add: nonMaxSuppression_def sortedIndices_def nms_while.simps forEach_suppress_def
        forEach_step_def calculateIoU_at_def calculateIoU_def intersection_def js_div_def
        splice1_def Let_def)

text \<open>
  C9 at a failing input. On three copies of one box with equal scores, at threshold
  \<open>0.5\<close>, \<open>main.js\<close> returns the indices \<open>[0, 2]\<close> and \<open>yolo-worker.js\<close> returns
  \<open>[0]\<close>.
\<close>

theorem nonMaxSuppression_differs_from_worker:
  "nonMaxSuppression (replicate 3 \<lparr>box_x = 0, box_y = 0, width = 4, height = 4\<rparr>)
      [1, 1, 1] (1 / 2) 100 = Inr [0, 2]
   \<and> worker_nonMaxSuppression (replicate 3 \<lparr>box_x = 0, box_y = 0, width = 4, height = 4\<rparr>)
      [1, 1, 1] (1 / 2) 100 = Inr [0]
   \<and> nonMaxSuppression (replicate 3 \<lparr>box_x = 0, box_y = 0, width = 4, height = 4\<rparr>)
      [1, 1, 1] (1 / 2) 100
     \<noteq> worker_nonMaxSuppression (replicate 3 \<lparr>box_x = 0, box_y = 0, width = 4, height = 4\<rparr>)
      [1, 1, 1] (1 / 2) 100"
  by (simp add: nonMaxSuppression_def worker_nonMaxSuppression_def sortedIndices_def
        nms_while.simps worker_nms_while.simps forEach_suppress_def backward_suppress_def
        forEach_step_def backward_step_def calculateIoU_at_def calculateIoU_def
        intersection_def js_div_def splice1_def Let_def eval_nat_numeral)

section \<open>Properties of the decoder\<close>

lemma classScan_prefix:
  "(\<forall>c<n. val out (4 + c) i \<le> fst (fold (classStep out i) [0..<n] (0, 0)))
   \<and> 0 \<le> fst (fold (classStep out i) [0..<n] (0, 0))
   \<and> (0 < fst (fold (classStep out i) [0..<n] (0, 0)) \<longrightarrow>
        snd (fold (classStep out i) [0..<n] (0, 0)) < n
      \<and> val out (4 + snd (fold (classStep out i) [0..<n] (0, 0))) i
          = fst (fold (classStep out i) [0..<n] (0, 0))
      \<and> (\<forall>c<snd (fold (classStep out i) [0..<n] (0, 0)).
            val out (4 + c) i < fst (fold (classStep out i) [0..<n] (0, 0))))
   \<and> (fst (fold (classStep out i) [0..<n] (0, 0)) = 0 \<longrightarrow>
        snd (fold (classStep out i) [0..<n] (0, 0)) = 0)"
proof (induction n)
  case 0
  then show ?case by simp
next
  case (Suc n)
  obtain ms mc where acc: "fold (classStep out i) [0..<n] (0, 0) = (ms, mc)"
    by (cases "fold (classStep out i) [0..<n] (0, 0)")
  have IH: "\<forall>c<n. val out (4 + c) i \<le> ms" "0 \<le> ms"
    "0 < ms \<longrightarrow> mc < n \<and> val out (4 + mc) i = ms \<and> (\<forall>c<mc. val out (4 + c) i < ms)"
    "ms = 0 \<longrightarrow> mc = 0"
    using Suc.IH unfolding acc by simp_all
  show ?case
  proof (cases "ms < val out (4 + n) i")
    case True
    then have st: "fold (classStep out i) [0..<Suc n] (0, 0) = (val out (4 + n) i, n)"
      by (simp add: acc classStep_def)
    have "\<forall>c<Suc n. val out (4 + c) i \<le> val out (4 + n) i"
      using IH(1) True by (auto simp: less_Suc_eq)
    moreover have "\<forall>c<n. val out (4 + c) i < val out (4 + n) i"
      using IH(1) True by fastforce
    ultimately show ?thesis
      unfolding st using True IH(2) by auto
  next
    case False
    then have st: "fold (classStep out i) [0..<Suc n] (0, 0) = (ms, mc)"
      by (simp add: acc classStep_def)
    have "\<forall>c<Suc n. val out (4 + c) i \<le> ms"
      using IH(1) False by (auto simp: less_Suc_eq)
    then show ?thesis
      unfolding st using IH by auto
  qed
qed

lemma classScan_bounds:
  "\<forall>c<numClasses out. val out (4 + c) i \<le> fst (classScan out i)"
  "0 \<le> fst (classScan out i)"
  using classScan_prefix [of "numClasses out" out i] by (simp_all add: classScan_def)

lemma classScan_positive:
  assumes "0 < fst (classScan out i)"
  shows "snd (classScan out i) < numClasses out"
    and "val out (4 + snd (classScan out i)) i = fst (classScan out i)"
    and "\<forall>c<snd (classScan out i). val out (4 + c) i < fst (classScan out i)"
  using classScan_prefix [of "numClasses out" out i] assms by (simp_all add: classScan_def)

lemma scoreThreshold_positive: "0 < scoreThreshold MODEL_CONFIG"
  by (simp add: MODEL_CONFIG_def)

lemma decodeAnchor_Some:
  assumes "decodeAnchor out imgWidth imgHeight i = Some d"
  shows "scoreThreshold MODEL_CONFIG < fst (classScan out i)"
    and "d = \<lparr>box_x = (val out 0 i - val out 2 i / 2) * imgWidth,
             box_y = (val out 1 i - val out 3 i / 2) * imgHeight,
             width = val out 2 i * imgWidth, height = val out 3 i * imgHeight,
             score = fst (classScan out i), classIndex = snd (classScan out i)\<rparr>"
  using assms by (auto simp: decodeAnchor_def Let_def split: if_splits)

lemma fold_pushDetection:
  "fold (pushDetection out w h) ks acc = acc @ List.map_filter (decodeAnchor out w h) ks"
  by (induction ks arbitrary: acc)
     (simp_all add: pushDetection_def split: option.splits)

lemma decodeDetections_Inr:
  assumes "decodeDetections out w h = Inr ds"
  shows "ds = List.map_filter (decodeAnchor out w h) [0..<cols out]"
  using assms by (auto simp: decodeDetections_def fold_pushDetection split: if_splits)

text \<open>
  C6. For every retained anchor \<open>i\<close>, with centre \<open>(val out 0 i, val out 1 i)\<close> and
  size \<open>(val out 2 i, val out 3 i)\<close>, the detection pushed is in the decoded list,
  its box is \<open>x = (cx - w/2) * imgWidth\<close>, \<open>y = (cy - h/2) * imgHeight\<close>,
  \<open>width = w * imgWidth\<close>, \<open>height = h * imgHeight\<close>, its score is the maximum of
  the anchor's class confidences, and its class index is the smallest index that
  attains the maximum.
\<close>

theorem decodeAnchor_retained:
  assumes "decodeDetections out imgWidth imgHeight = Inr ds"
    and "i < cols out"
    and "decodeAnchor out imgWidth imgHeight i = Some d"
  shows "d \<in> set ds
    \<and> box_x d = (val out 0 i - val out 2 i / 2) * imgWidth
    \<and> box_y d = (val out 1 i - val out 3 i / 2) * imgHeight
    \<and> width d = val out 2 i * imgWidth
    \<and> height d = val out 3 i * imgHeight
    \<and> score d = Max ((\<lambda>c. val out (4 + c) i) ` {..<numClasses out})
    \<and> classIndex d = (LEAST c. c < numClasses out \<and> val out (4 + c) i = score d)
    \<and> classIndex d < numClasses out
    \<and> val out (4 + classIndex d) i = score d
    \<and> (\<forall>c<numClasses out. val out (4 + c) i \<le> score d)
    \<and> (\<forall>c<classIndex d. val out (4 + c) i < score d)"
proof -
  note s = decodeAnchor_Some [OF assms(3)]
  have pos: "0 < fst (classScan out i)"
    using s(1) scoreThreshold_positive by linarith
  note p = classScan_positive [OF pos]
  have sc: "score d = fst (classScan out i)" and ci: "classIndex d = snd (classScan out i)"
    using s(2) by simp_all
  have mem: "d \<in> set ds"
    using decodeDetections_Inr [OF assms(1)] assms(2,3)
    by (force simp: List.map_filter_def)
  have ub: "\<forall>c<numClasses out. val out (4 + c) i \<le> score d"
    using classScan_bounds(1) [of out i] sc by simp
  have mx: "Max ((\<lambda>c. val out (4 + c) i) ` {..<numClasses out}) = score d"
  proof (rule Max_eqI)
    show "finite ((\<lambda>c. val out (4 + c) i) ` {..<numClasses out})" by simp
    show "\<And>y. y \<in> (\<lambda>c. val out (4 + c) i) ` {..<numClasses out} \<Longrightarrow> y \<le> score d"
      using ub by auto
    show "score d \<in> (\<lambda>c. val out (4 + c) i) ` {..<numClasses out}"
      using p(1,2) sc by force
  qed
  have lst: "(LEAST c. c < numClasses out \<and> val out (4 + c) i = score d) = classIndex d"
  proof (rule Least_equality)
    show "classIndex d < numClasses out \<and> val out (4 + classIndex d) i = score d"
      using p(1,2) sc ci by simp
    show "\<And>c. c < numClasses out \<and> val out (4 + c) i = score d \<Longrightarrow> classIndex d \<le> c"
      using p(3) sc ci by (metis less_irrefl not_le)
  qed
  show ?thesis
    using mem s(2) mx lst p ub sc ci by simp
qed


theorem decodeAnchor_retained_witness:
  "decodeDetections tie_example 640 480
     = Inr [\<lparr>box_x = 256, box_y = 144, width = 128, height = 192,
              score = 9 / 10, classIndex = 1\<rparr>]
   \<and> decodeAnchor tie_example 640 480 0
     = Some \<lparr>box_x = 256, box_y = 144, width = 128, height = 192,
              score = 9 / 10, classIndex = 1\<rparr>
   \<and> Max ((\<lambda>c. val tie_example (4 + c) 0) ` {..<numClasses tie_example}) = 9 / 10
   \<and> (LEAST c. c < numClasses tie_example \<and> val tie_example (4 + c) 0 = 9 / 10) = 1
   \<and> val tie_example (4 + 2) 0 = val tie_example (4 + 1) 0"
proof -
  have a: "decodeAnchor tie_example 640 480 0
     = Some \<lparr>box_x = 256, box_y = 144, width = 128, height = 192,
              score = 9 / 10, classIndex = 1\<rparr>"
    by (simp add: decodeAnchor_def classScan_def classStep_def numClasses_def
          tie_example_def MODEL_CONFIG_def Let_def eval_nat_numeral)
  have d: "decodeDetections tie_example 640 480
     = Inr [\<lparr>box_x = 256, box_y = 144, width = 128, height = 192,
              score = 9 / 10, classIndex = 1\<rparr>]"
    using a by (simp add: decodeDetections_def pushDetection_def tie_example_def)
  have c: "0 < cols tie_example" by (simp add: tie_example_def)
  have t: "val tie_example (4 + 2) 0 = val tie_example (4 + 1) 0"
    by (simp add: tie_example_def)
  show ?thesis
    using decodeAnchor_retained [OF d c a] a d t by simp
qed

text \<open>
  C5, as stated, fails: an anchor whose maximum class confidence equals the threshold
  is not strictly below it, and it is discarded all the same.
\<close>

theorem decodeAnchor_at_threshold_counterexample:
  "val threshold_example 4 0 = scoreThreshold MODEL_CONFIG
   \<and> \<not> val threshold_example 4 0 < scoreThreshold MODEL_CONFIG
   \<and> decodeAnchor threshold_example 640 480 0 = None
   \<and> decodeDetections threshold_example 640 480 = Inr []"
  by (simp add: decodeDetections_def pushDetection_def decodeAnchor_def classScan_def
        classStep_def numClasses_def threshold_example_def MODEL_CONFIG_def Let_def)

lemma decodeAnchor_None_iff:
  "(decodeAnchor out w h i = None)
     = (\<forall>c<numClasses out. val out (4 + c) i \<le> scoreThreshold MODEL_CONFIG)"
proof
  assume "decodeAnchor out w h i = None"
  then have "fst (classScan out i) \<le> scoreThreshold MODEL_CONFIG"
    by (auto simp: decodeAnchor_def Let_def split: if_splits)
  then show "\<forall>c<numClasses out. val out (4 + c) i \<le> scoreThreshold MODEL_CONFIG"
    using classScan_bounds(1) [of out i] by fastforce
next
  assume all: "\<forall>c<numClasses out. val out (4 + c) i \<le> scoreThreshold MODEL_CONFIG"
  have "\<not> scoreThreshold MODEL_CONFIG < fst (classScan out i)"
  proof
    assume gt: "scoreThreshold MODEL_CONFIG < fst (classScan out i)"
    then have pos: "0 < fst (classScan out i)"
      using scoreThreshold_positive by linarith
    from classScan_positive(1,2) [OF pos] all gt show False by fastforce
  qed
  then show "decodeAnchor out w h i = None"
    by (simp add: decodeAnchor_def Let_def)
qed

lemma decodeAnchor_score:
  assumes "decodeAnchor out w h i = Some d"
  shows "scoreThreshold MODEL_CONFIG < score d"
    and "(\<forall>c<numClasses out. val out (4 + c) i \<le> 1) \<Longrightarrow> score d \<le> 1"
proof -
  note s = decodeAnchor_Some [OF assms]
  show gt: "scoreThreshold MODEL_CONFIG < score d" using s by simp
  assume le: "\<forall>c<numClasses out. val out (4 + c) i \<le> 1"
  have pos: "0 < fst (classScan out i)"
    using s(1) scoreThreshold_positive by linarith
  from classScan_positive(1,2) [OF pos] le s(2) show "score d \<le> 1" by fastforce
qed

text \<open>
  C5, amended. The decoder discards an anchor exactly when none of its class
  confidences exceeds the threshold, that is when its maximum class confidence is
  at most the threshold (equality included); every detection it emits has a score
  above the threshold, and at most \<open>1\<close> when the class confidences are.
\<close>

theorem decodeAnchor_threshold:
  "((decodeAnchor out w h i = None)
      = (\<forall>c<numClasses out. val out (4 + c) i \<le> scoreThreshold MODEL_CONFIG))
   \<and> (\<forall>d. decodeAnchor out w h i = Some d \<longrightarrow>
          scoreThreshold MODEL_CONFIG < score d
        \<and> ((\<forall>c<numClasses out. val out (4 + c) i \<le> 1) \<longrightarrow> score d \<le> 1))
   \<and> (\<forall>ds. decodeDetections out w h = Inr ds \<longrightarrow>
          (\<forall>d\<in>set ds. scoreThreshold MODEL_CONFIG < score d))"
proof (intro conjI allI impI ballI)
  show "(decodeAnchor out w h i = None)
      = (\<forall>c<numClasses out. val out (4 + c) i \<le> scoreThreshold MODEL_CONFIG)"
    by (rule decodeAnchor_None_iff)
next
  fix d assume "decodeAnchor out w h i = Some d"
  then show "scoreThreshold MODEL_CONFIG < score d" by (rule decodeAnchor_score(1))
next
  fix d assume "decodeAnchor out w h i = Some d"
    and "\<forall>c<numClasses out. val out (4 + c) i \<le> 1"
  then show "score d \<le> 1" by (rule decodeAnchor_score(2))
next
  fix ds d assume "decodeDetections out w h = Inr ds" and "d \<in> set ds"
  then obtain j where "decodeAnchor out w h j = Some d"
    using decodeDetections_Inr [of out w h ds] by (auto simp: List.map_filter_def)
  then show "scoreThreshold MODEL_CONFIG < score d" by (rule decodeAnchor_score(1))
qed

theorem decodeAnchor_threshold_witness:
  "decodeAnchor threshold_example 640 480 0 = None
   \<and> val threshold_example (4 + 0) 0 = scoreThreshold MODEL_CONFIG
   \<and> decodeAnchor tie_example 640 480 0
       = Some \<lparr>box_x = 256, box_y = 144, width = 128, height = 192,
                score = 9 / 10, classIndex = 1\<rparr>
   \<and> scoreThreshold MODEL_CONFIG < 9 / 10 \<and> (9 / 10 :: real) \<le> 1
   \<and> decodeDetections tie_example 640 480
       = Inr [\<lparr>box_x = 256, box_y = 144, width = 128, height = 192,
                score = 9 / 10, classIndex = 1\<rparr>]"
proof -
  have a: "decodeAnchor tie_example 640 480 0
     = Some \<lparr>box_x = 256, box_y = 144, width = 128, height = 192,
              score = 9 / 10, classIndex = 1\<rparr>"
    by (simp add: decodeAnchor_def classScan_def classStep_def numClasses_def
          tie_example_def MODEL_CONFIG_def Let_def eval_nat_numeral)
  have d: "decodeDetections tie_example 640 480
     = Inr [\<lparr>box_x = 256, box_y = 144, width = 128, height = 192,
              score = 9 / 10, classIndex = 1\<rparr>]"
    using a by (simp add: decodeDetections_def pushDetection_def tie_example_def)
  have n: "\<forall>c<numClasses threshold_example.
             val threshold_example (4 + c) 0 \<le> scoreThreshold MODEL_CONFIG"
    by (simp add: threshold_example_def MODEL_CONFIG_def)
  have v: "val threshold_example (4 + 0) 0 = scoreThreshold MODEL_CONFIG"
    by (simp add: threshold_example_def MODEL_CONFIG_def)
  show ?thesis
    using decodeAnchor_threshold [of threshold_example 640 480 0] n v
      decodeAnchor_threshold [of tie_example 640 480 0] a d
    by (simp add: MODEL_CONFIG_def)
qed

section \<open>Properties of the result cache\<close>

lemma cache_get_None_iff: "(cache_get c k = None) = (k \<notin> fst ` set c)"
  by (simp add: cache_get_def map_of_eq_None_iff)

lemma length_cache_set: "length (cache_set c k v) \<le> Suc (length c)"
  by (induction c) auto

lemma cache_set_absent: "k \<notin> fst ` set c \<Longrightarrow> cache_set c k v = c @ [(k, v)]"
  by (induction c) auto

lemma cache_get_cache_set: "cache_get (cache_set c k v) k = Some v"
  by (induction c) (auto simp: cache_get_def)

lemma cacheStore_length:
  assumes "length c \<le> MAX_CACHE_SIZE"
  shows "length (cacheStore c k v) \<le> MAX_CACHE_SIZE"
proof (cases "MAX_CACHE_SIZE \<le> length c")
  case False
  then show ?thesis
    using length_cache_set [of c k v] by (simp add: cacheStore_def)
next
  case True
  then obtain p ps where c: "c = p # ps" by (cases c) (auto simp: MAX_CACHE_SIZE_def)
  have "length (cache_delete c (fst p)) \<le> length ps"
    by (simp add: c cache_delete_def)
  then have "length (cache_set (cache_delete c (fst p)) k v) \<le> Suc (length ps)"
    using length_cache_set [of "cache_delete c (fst p)" k v] by linarith
  then show ?thesis
    using True assms by (simp add: cacheStore_def c)
qed

lemma cache_get_cacheStore: "cache_get (cacheStore c k v) k = Some v"
  by (simp add: cacheStore_def cache_get_cache_set)

lemma cacheStore_fifo:
  assumes "distinct (map fst c)" and "k \<notin> fst ` set c"
  shows "map fst (cacheStore c k v)
           = (if MAX_CACHE_SIZE \<le> length c then tl (map fst c) else map fst c) @ [k]"
proof (cases "MAX_CACHE_SIZE \<le> length c")
  case False
  then show ?thesis using assms(2) by (simp add: cacheStore_def cache_set_absent)
next
  case True
  then obtain p ps where c: "c = p # ps" by (cases c) (auto simp: MAX_CACHE_SIZE_def)
  have "fst p \<notin> fst ` set ps" using assms(1) c by simp
  then have "filter (\<lambda>q. fst q \<noteq> fst p) ps = ps"
    by (induction ps) auto
  then have del: "cache_delete (p # ps) (fst p) = ps" by (simp add: cache_delete_def)
  have "k \<notin> fst ` set ps" using assms(2) c by simp
  then show ?thesis using True by (simp add: cacheStore_def c del cache_set_absent)
qed

text \<open>The five ways a call of \<open>detectMedicine\<close> can go.\<close>

lemma detectMedicine_hit:
  assumes "cache_get (detectionCache s) (generateImageCacheKey img) = Some d"
  shows "detectMedicine s img env
           = ((Inr d, []),
              s\<lparr>performanceMetrics := (performanceMetrics s)
                   \<lparr>cachedResults := cachedResults (performanceMetrics s) + 1\<rparr>\<rparr>)"
  using assms by (simp add: detectMedicine_def detectDispatch_def)

lemma detectMedicine_worker_ok:
  assumes "cache_get (detectionCache s) (generateImageCacheKey img) = None"
    and "useWebWorker s" "yoloWorker s" "workerResult env = Inr d"
  shows "detectMedicine s img env
           = ((Inr d, [WithWorker]),
              recordInference
                (s\<lparr>performanceMetrics := (performanceMetrics s)
                     \<lparr>workerUsage := workerUsage (performanceMetrics s) + 1\<rparr>\<rparr>)
                (generateImageCacheKey img) d (inferenceTime env))"
  using assms by (simp add: detectMedicine_def detectDispatch_def detectSettle_def awaited_def)

lemma detectMedicine_worker_fails:
  assumes "cache_get (detectionCache s) (generateImageCacheKey img) = None"
    and "useWebWorker s" "yoloWorker s" "workerResult env = Inl e"
  shows "detectMedicine s img env
           = ((mainThreadResult env, [WithWorker, MainThread]),
              s\<lparr>performanceMetrics := (performanceMetrics s)
                   \<lparr>workerUsage := workerUsage (performanceMetrics s) + 1\<rparr>,
                useWebWorker := False\<rparr>)"
  using assms
  by (simp add: detectMedicine_def detectDispatch_def detectSettle_def awaited_def catchBlock_def)

lemma detectMedicine_main_ok:
  assumes "cache_get (detectionCache s) (generateImageCacheKey img) = None"
    and "\<not> (useWebWorker s \<and> yoloWorker s)" "mainThreadResult env = Inr d"
  shows "detectMedicine s img env
           = ((Inr d, [MainThread]),
              recordInference s (generateImageCacheKey img) d (inferenceTime env))"
  using assms
  by (auto simp: detectMedicine_def detectDispatch_def detectSettle_def awaited_def)

lemma detectMedicine_main_fails:
  assumes "cache_get (detectionCache s) (generateImageCacheKey img) = None"
    and "\<not> (useWebWorker s \<and> yoloWorker s)" "mainThreadResult env = Inl e"
  shows "detectMedicine s img env = ((Inl e, [MainThread]), s)"
  using assms
  by (auto simp: detectMedicine_def detectDispatch_def detectSettle_def awaited_def catchBlock_def)

text \<open>The five cases are all there are.\<close>

lemma detectMedicine_cases:
  obtains (hit) d where "cache_get (detectionCache s) (generateImageCacheKey img) = Some d"
  | (worker_ok) d where "cache_get (detectionCache s) (generateImageCacheKey img) = None"
      "useWebWorker s" "yoloWorker s" "workerResult env = Inr d"
  | (worker_fails) e where "cache_get (detectionCache s) (generateImageCacheKey img) = None"
      "useWebWorker s" "yoloWorker s" "workerResult env = Inl e"
  | (main_ok) d where "cache_get (detectionCache s) (generateImageCacheKey img) = None"
      "\<not> (useWebWorker s \<and> yoloWorker s)" "mainThreadResult env = Inr d"
  | (main_fails) e where "cache_get (detectionCache s) (generateImageCacheKey img) = None"
      "\<not> (useWebWorker s \<and> yoloWorker s)" "mainThreadResult env = Inl e"
proof (cases "cache_get (detectionCache s) (generateImageCacheKey img)")
  case (Some d)
  then show ?thesis by (rule hit)
next
  case None
  show ?thesis
  proof (cases "useWebWorker s \<and> yoloWorker s")
    case True
    then show ?thesis
      using None worker_ok worker_fails by (cases "workerResult env") auto
  next
    case False
    then show ?thesis
      using None main_ok main_fails by (cases "mainThreadResult env") auto
  qed
qed

lemma detectionCache_recordInference [simp]:
  "detectionCache (recordInference s k d t) = cacheStore (detectionCache s) k d"
  by (simp add: recordInference_def Let_def)

lemma useWebWorker_recordInference [simp]:
  "useWebWorker (recordInference s k d t) = useWebWorker s"
  by (simp add: recordInference_def Let_def)

lemma inferenceCount_recordInference [simp]:
  "inferenceCount (performanceMetrics (recordInference s k d t))
     = inferenceCount (performanceMetrics s) + 1"
  by (simp add: recordInference_def Let_def)

lemma cachedResults_recordInference [simp]:
  "cachedResults (performanceMetrics (recordInference s k d t))
     = cachedResults (performanceMetrics s)"
  by (simp add: recordInference_def Let_def)

lemma totalInferenceTime_recordInference [simp]:
  "totalInferenceTime (performanceMetrics (recordInference s k d t))
     = totalInferenceTime (performanceMetrics s) + t"
  by (simp add: recordInference_def Let_def)

text \<open>The two stretches of a call.\<close>

lemma detectDispatch_fields [simp]:
  "detectionCache (snd (detectDispatch s img)) = detectionCache s"
  "useWebWorker (snd (detectDispatch s img)) = useWebWorker s"
  "inferenceCount (performanceMetrics (snd (detectDispatch s img)))
     = inferenceCount (performanceMetrics s)"
  by (simp_all add: detectDispatch_def split: option.splits)

lemma detectSettle_cases:
  obtains (resolved) d where "awaited c env = Inr d"
      "detectSettle s k c env = ((Inr d, [c]), recordInference s k d (inferenceTime env))"
  | (retried) e where "awaited c env = Inl e" "useWebWorker s" "yoloWorker s"
      "detectSettle s k c env
         = ((if c = MainThread then mainThreadRetryResult env else mainThreadResult env,
             [c, MainThread]),
            s\<lparr>useWebWorker := False\<rparr>)"
  | (rejected) e where "awaited c env = Inl e" "\<not> (useWebWorker s \<and> yoloWorker s)"
      "detectSettle s k c env = ((Inl e, [c]), s)"
proof (cases "awaited c env")
  case (Inr d)
  then show ?thesis using resolved by (simp add: detectSettle_def)
next
  case (Inl e)
  show ?thesis
  proof (cases "useWebWorker s \<and> yoloWorker s")
    case True
    then show ?thesis
      using Inl retried [of e] by (cases c) (simp_all add: detectSettle_def catchBlock_def)
  next
    case False
    then show ?thesis
      using Inl rejected [of e] by (auto simp: detectSettle_def catchBlock_def)
  qed
qed

lemma map_fst_cache_set:
  "map fst (cache_set c k v) = (if k \<in> fst ` set c then map fst c else map fst c @ [k])"
  by (induction c) auto

lemma cacheStore_distinct:
  assumes "distinct (map fst c)"
  shows "distinct (map fst (cacheStore c k v))"
proof -
  have d: "distinct (map fst (filter P c))" for P
    using assms by (rule distinct_map_filter)
  have s: "distinct (map fst c') \<Longrightarrow> distinct (map fst (cache_set c' k v))" for c'
    by (auto simp: map_fst_cache_set)
  show ?thesis
  proof (cases "MAX_CACHE_SIZE \<le> length c")
    case False
    then show ?thesis using s [OF assms] by (simp add: cacheStore_def)
  next
    case True
    show ?thesis
    proof (cases c)
      case Nil
      then show ?thesis by (simp add: cacheStore_def)
    next
      case (Cons p ps)
      have "distinct (map fst (cache_delete c (fst p)))"
        unfolding cache_delete_def by (rule d)
      then have "distinct (map fst (cache_set (cache_delete c (fst p)) k v))"
        by (rule s)
      then show ?thesis using True Cons by (simp add: cacheStore_def)
    qed
  qed
qed

lemma detectSettle_cache_length:
  assumes "length (detectionCache s) \<le> MAX_CACHE_SIZE"
  shows "length (detectionCache (snd (detectSettle s k c env))) \<le> MAX_CACHE_SIZE"
  using assms
  by (cases rule: detectSettle_cases [where s = s and k = k and c = c and env = env])
     (simp_all add: cacheStore_length)

lemma detectSettle_cache_distinct:
  assumes "distinct (map fst (detectionCache s))"
  shows "distinct (map fst (detectionCache (snd (detectSettle s k c env))))"
  using assms
  by (cases rule: detectSettle_cases [where s = s and k = k and c = c and env = env])
     (simp_all add: cacheStore_distinct)

lemma detectMedicine_cache_length:
  assumes "length (detectionCache s) \<le> MAX_CACHE_SIZE"
  shows "length (detectionCache (snd (detectMedicine s img env))) \<le> MAX_CACHE_SIZE"
proof (cases rule: detectMedicine_cases [where s = s and img = img and env = env])
  case (hit d)
  then show ?thesis using assms by (simp add: detectMedicine_hit)
next
  case (worker_ok d)
  then show ?thesis using assms by (simp add: detectMedicine_worker_ok cacheStore_length)
next
  case (worker_fails e)
  then show ?thesis using assms by (simp add: detectMedicine_worker_fails)
next
  case (main_ok d)
  then show ?thesis using assms by (simp add: detectMedicine_main_ok cacheStore_length)
next
  case (main_fails e)
  then show ?thesis using assms by (simp add: detectMedicine_main_fails)
qed

lemma step_cache_length:
  assumes "length (detectionCache s) \<le> MAX_CACHE_SIZE"
  shows "length (detectionCache (step s ev)) \<le> MAX_CACHE_SIZE"
  using assms
  by (cases ev)
     (simp_all add: detectMedicine_cache_length detectSettle_cache_length preloadModel_def
        initYOLOWorker_def workerErrorEvent_def resetPerformanceMetrics_def Let_def)

lemma exec_cache_length:
  "length (detectionCache s) \<le> MAX_CACHE_SIZE \<Longrightarrow>
   length (detectionCache (exec s evs)) \<le> MAX_CACHE_SIZE"
  by (induction evs arbitrary: s) (simp_all add: step_cache_length)

lemma exec_append: "exec s (es @ fs) = exec (exec s es) fs"
  by (induction es arbitrary: s) simp_all

lemma detectMedicine_cache_step:
  assumes "distinct (map fst (detectionCache s))"
  shows "detectionCache (snd (detectMedicine s img env)) = detectionCache s
       \<or> (generateImageCacheKey img \<notin> fst ` set (detectionCache s)
          \<and> map fst (detectionCache (snd (detectMedicine s img env)))
              = (if MAX_CACHE_SIZE \<le> length (detectionCache s)
                 then tl (map fst (detectionCache s)) else map fst (detectionCache s))
                @ [generateImageCacheKey img])"
proof (cases rule: detectMedicine_cases [where s = s and img = img and env = env])
  case (hit d)
  then show ?thesis by (simp add: detectMedicine_hit)
next
  case (worker_ok d)
  then have "generateImageCacheKey img \<notin> fst ` set (detectionCache s)"
    by (simp add: cache_get_None_iff)
  then show ?thesis
    using worker_ok assms by (simp add: detectMedicine_worker_ok cacheStore_fifo)
next
  case (worker_fails e)
  then show ?thesis by (simp add: detectMedicine_worker_fails)
next
  case (main_ok d)
  then have "generateImageCacheKey img \<notin> fst ` set (detectionCache s)"
    by (simp add: cache_get_None_iff)
  then show ?thesis
    using main_ok assms by (simp add: detectMedicine_main_ok cacheStore_fifo)
next
  case (main_fails e)
  then show ?thesis by (simp add: detectMedicine_main_fails)
qed

lemma detectMedicine_cache_distinct:
  assumes "distinct (map fst (detectionCache s))"
  shows "distinct (map fst (detectionCache (snd (detectMedicine s img env))))"
proof -
  let ?keys = "map fst (detectionCache s)"
  have "set (tl ?keys) \<subseteq> set ?keys"
    by (cases ?keys) auto
  then have "generateImageCacheKey img \<notin> fst ` set (detectionCache s) \<Longrightarrow>
             generateImageCacheKey img \<notin> set (tl ?keys)"
    by auto
  then show ?thesis
    using detectMedicine_cache_step [OF assms, of img env] assms
    by (auto simp: distinct_tl)
qed

lemma step_cache_distinct:
  assumes "distinct (map fst (detectionCache s))"
  shows "distinct (map fst (detectionCache (step s ev)))"
  using assms
  by (cases ev)
     (simp_all add: detectMedicine_cache_distinct detectSettle_cache_distinct preloadModel_def
        initYOLOWorker_def workerErrorEvent_def resetPerformanceMetrics_def Let_def)

lemma exec_cache_distinct:
  "distinct (map fst (detectionCache s)) \<Longrightarrow>
   distinct (map fst (detectionCache (exec s evs)))"
  by (induction evs arbitrary: s) (simp_all add: step_cache_distinct)

lemma detectMedicine_success_stores:
  assumes "cache_get (detectionCache s) (generateImageCacheKey img) = None"
    and "\<not> isl (workerResult env)" and "\<not> isl (mainThreadResult env)"
  shows "\<exists>d. detectionCache (snd (detectMedicine s img env))
             = cacheStore (detectionCache s) (generateImageCacheKey img) d"
proof (cases rule: detectMedicine_cases [where s = s and img = img and env = env])
  case (hit d)
  then show ?thesis using assms by simp
next
  case (worker_ok d)
  then show ?thesis by (auto simp: detectMedicine_worker_ok)
next
  case (worker_fails e)
  then show ?thesis using assms by simp
next
  case (main_ok d)
  then show ?thesis by (auto simp: detectMedicine_main_ok)
next
  case (main_fails e)
  then show ?thesis using assms by simp
qed

lemma run_fifo:
  assumes "detectionCache s = []"
  shows "distinct (keys_of calls) \<Longrightarrow> list_all succeeds calls \<Longrightarrow>
         map fst (detectionCache (exec s (detects calls)))
           = drop (length calls - MAX_CACHE_SIZE) (keys_of calls)"
proof (induction calls rule: rev_induct)
  case Nil
  then show ?case using assms by (simp add: detects_def keys_of_def)
next
  case (snoc c calls)
  let ?s = "exec s (detects calls)"
  let ?k = "generateImageCacheKey (fst c)"
  have d: "distinct (keys_of calls)" and k: "?k \<notin> set (keys_of calls)"
    using snoc.prems(1) by (simp_all add: keys_of_def)
  have keys: "map fst (detectionCache ?s) = drop (length calls - MAX_CACHE_SIZE) (keys_of calls)"
    using snoc.IH [OF d] snoc.prems(2) by simp
  have dc: "distinct (map fst (detectionCache ?s))"
    unfolding keys using d by simp
  have "set (map fst (detectionCache ?s)) \<subseteq> set (keys_of calls)"
    unfolding keys by (rule set_drop_subset)
  then have nk: "?k \<notin> fst ` set (detectionCache ?s)"
    using k by auto
  have len: "length (detectionCache ?s) = min (length calls) MAX_CACHE_SIZE"
    using arg_cong [OF keys, of length] by (simp add: keys_of_def)
  have miss: "cache_get (detectionCache ?s) ?k = None"
    using nk by (simp add: cache_get_None_iff)
  have ok: "\<not> isl (workerResult (snd c))" "\<not> isl (mainThreadResult (snd c))"
    using snoc.prems(2) by (simp_all add: succeeds_def)
  obtain dets where st:
    "detectionCache (snd (detectMedicine ?s (fst c) (snd c))) = cacheStore (detectionCache ?s) ?k dets"
    using detectMedicine_success_stores [OF miss ok] by blast
  have "map fst (detectionCache (exec s (detects (calls @ [c]))))
          = map fst (cacheStore (detectionCache ?s) ?k dets)"
    using st by (simp add: detects_def exec_append)
  also have "\<dots> = (if MAX_CACHE_SIZE \<le> length (detectionCache ?s)
                     then tl (map fst (detectionCache ?s)) else map fst (detectionCache ?s)) @ [?k]"
    using dc nk by (rule cacheStore_fifo)
  also have "\<dots> = drop (length (calls @ [c]) - MAX_CACHE_SIZE) (keys_of (calls @ [c]))"
  proof (cases "MAX_CACHE_SIZE \<le> length calls")
    case True
    then have "Suc (length calls) - MAX_CACHE_SIZE = Suc (length calls - MAX_CACHE_SIZE)"
      and "Suc 0 - MAX_CACHE_SIZE = 0"
      by (simp_all add: MAX_CACHE_SIZE_def)
    then show ?thesis
      using True len by (simp add: keys keys_of_def drop_Suc tl_drop)
  next
    case False
    then show ?thesis
      using len by (simp add: keys keys_of_def)
  qed
  finally show ?case .
qed

lemma initial_cache: "detectionCache initialState = []"
  by (simp add: initialState_def)

text \<open>
  C4. In every state the process can reach, the cache holds at most
  \<open>MAX_CACHE_SIZE = 10\<close> entries. A call either leaves the cache as it is (a hit
  is such a call: reading does not reorder) or appends its key, after dropping the
  first-inserted key if the cache was full. After \<open>n\<close> successful calls on images
  with distinct keys the cache holds the last ten keys in insertion order; after
  eleven, the first key is absent and the other ten are present.
\<close>

theorem detectionCache_bounded_fifo:
  "length (detectionCache (exec initialState evs)) \<le> MAX_CACHE_SIZE
   \<and> MAX_CACHE_SIZE = 10
   \<and> (detectionCache (snd (detectMedicine (exec initialState evs) img env))
         = detectionCache (exec initialState evs)
      \<or> map fst (detectionCache (snd (detectMedicine (exec initialState evs) img env)))
         = (if MAX_CACHE_SIZE \<le> length (detectionCache (exec initialState evs))
            then tl (map fst (detectionCache (exec initialState evs)))
            else map fst (detectionCache (exec initialState evs)))
           @ [generateImageCacheKey img])
   \<and> (cache_get (detectionCache s) (generateImageCacheKey img) = Some d \<longrightarrow>
        detectionCache (snd (detectMedicine s img env)) = detectionCache s)
   \<and> (distinct (keys_of calls) \<and> list_all succeeds calls \<longrightarrow>
        map fst (detectionCache (exec initialState (detects calls)))
          = drop (length calls - MAX_CACHE_SIZE) (keys_of calls))
   \<and> (distinct (keys_of calls) \<and> list_all succeeds calls \<and> length calls = 11 \<longrightarrow>
        hd (keys_of calls) \<notin> fst ` set (detectionCache (exec initialState (detects calls)))
        \<and> fst ` set (detectionCache (exec initialState (detects calls)))
            = set (tl (keys_of calls))
        \<and> length (detectionCache (exec initialState (detects calls))) = 10)"
proof (intro conjI impI)
  show "length (detectionCache (exec initialState evs)) \<le> MAX_CACHE_SIZE"
    by (rule exec_cache_length) (simp add: initial_cache)
  show "MAX_CACHE_SIZE = 10" by (simp add: MAX_CACHE_SIZE_def)
  have "distinct (map fst (detectionCache (exec initialState evs)))"
    by (rule exec_cache_distinct) (simp add: initial_cache)
  from detectMedicine_cache_step [OF this, of img env]
  show "detectionCache (snd (detectMedicine (exec initialState evs) img env))
         = detectionCache (exec initialState evs)
      \<or> map fst (detectionCache (snd (detectMedicine (exec initialState evs) img env)))
         = (if MAX_CACHE_SIZE \<le> length (detectionCache (exec initialState evs))
            then tl (map fst (detectionCache (exec initialState evs)))
            else map fst (detectionCache (exec initialState evs)))
           @ [generateImageCacheKey img]"
    by blast
next
  assume "cache_get (detectionCache s) (generateImageCacheKey img) = Some d"
  then show "detectionCache (snd (detectMedicine s img env)) = detectionCache s"
    by (simp add: detectMedicine_hit)
next
  assume "distinct (keys_of calls) \<and> list_all succeeds calls"
  then show "map fst (detectionCache (exec initialState (detects calls)))
          = drop (length calls - MAX_CACHE_SIZE) (keys_of calls)"
    using run_fifo [OF initial_cache, of calls] by simp
next
  assume a: "distinct (keys_of calls) \<and> list_all succeeds calls \<and> length calls = 11"
  then have keys: "map fst (detectionCache (exec initialState (detects calls)))
          = drop (length calls - MAX_CACHE_SIZE) (keys_of calls)"
    using run_fifo [OF initial_cache, of calls] by simp
  have len: "length (keys_of calls) = 11" using a by (simp add: keys_of_def)
  then obtain k ks where ks: "keys_of calls = k # ks" by (cases "keys_of calls") auto
  have tl: "map fst (detectionCache (exec initialState (detects calls))) = ks"
    using keys a by (simp add: ks MAX_CACHE_SIZE_def)
  have img: "fst ` set (detectionCache (exec initialState (detects calls))) = set ks"
    using arg_cong [OF tl, of set] by simp
  show "hd (keys_of calls) \<notin> fst ` set (detectionCache (exec initialState (detects calls)))"
    using a by (simp add: img ks)
  show "fst ` set (detectionCache (exec initialState (detects calls))) = set (tl (keys_of calls))"
    by (simp add: img ks)
  show "length (detectionCache (exec initialState (detects calls))) = 10"
    using arg_cong [OF tl, of length] len by (simp add: ks)
qed

lemma eleven_keys:
  "keys_of eleven_calls
     = [''blob:scan_1x480'', ''blob:scan_2x480'', ''blob:scan_3x480'', ''blob:scan_4x480'',
        ''blob:scan_5x480'', ''blob:scan_6x480'', ''blob:scan_7x480'', ''blob:scan_8x480'',
        ''blob:scan_9x480'', ''blob:scan_10x480'', ''blob:scan_11x480'']"
  by code_simp

lemma eleven_succeed: "list_all succeeds eleven_calls"
  by code_simp

theorem detectionCache_bounded_fifo_witness:
  "distinct (keys_of eleven_calls) \<and> list_all succeeds eleven_calls
   \<and> length eleven_calls = 11
   \<and> map fst (detectionCache (exec initialState (detects eleven_calls)))
       = [''blob:scan_2x480'', ''blob:scan_3x480'', ''blob:scan_4x480'',
          ''blob:scan_5x480'', ''blob:scan_6x480'', ''blob:scan_7x480'', ''blob:scan_8x480'',
          ''blob:scan_9x480'', ''blob:scan_10x480'', ''blob:scan_11x480'']
   \<and> ''blob:scan_1x480'' \<notin> fst ` set (detectionCache (exec initialState (detects eleven_calls)))
   \<and> cache_get (detectionCache (exec initialState (detects eleven_calls)))
        (generateImageCacheKey (scan_image 5)) = Some one_detection
   \<and> detectionCache
        (snd (detectMedicine (exec initialState (detects eleven_calls)) (scan_image 5) success_env))
       = detectionCache (exec initialState (detects eleven_calls))"
proof -
  have d: "distinct (keys_of eleven_calls)"
    unfolding eleven_keys by simp
  have l: "length eleven_calls = 11" by (simp add: eleven_calls_def)
  have h: "cache_get (detectionCache (exec initialState (detects eleven_calls)))
        (generateImageCacheKey (scan_image 5)) = Some one_detection"
    by code_simp
  show ?thesis
    using detectionCache_bounded_fifo
            [of "[]" "scan_image 5" success_env "exec initialState (detects eleven_calls)"
                one_detection eleven_calls]
          d l h eleven_succeed
    by (simp add: eleven_keys MAX_CACHE_SIZE_def)
qed

section \<open>Properties of the fallback\<close>




text \<open>
  With the worker no longer in use when the rejection is handled, the \<open>catch\<close>
  block rethrows.
\<close>

lemma detectSettle_worker_rejected:
  assumes "\<not> (useWebWorker s \<and> yoloWorker s)" and "workerResult env = Inl e"
  shows "detectSettle s k WithWorker env = ((Inl e, [WithWorker]), s)"
  using assms by (auto simp: detectSettle_def awaited_def catchBlock_def)




section \<open>What a call records\<close>

text \<open>
  A call that succeeds in the context it first tried stores its result under the
  key of the image and counts the inference; the retry after a worker failure does
  neither.
\<close>

lemma detectMedicine_direct_success_recorded:
  assumes "cache_get (detectionCache s) (generateImageCacheKey img) = None"
    and "fst (detectMedicine s img env) = (Inr d, [c])"
  shows "cache_get (detectionCache (snd (detectMedicine s img env))) (generateImageCacheKey img)
           = Some d
    \<and> inferenceCount (performanceMetrics (snd (detectMedicine s img env)))
        = inferenceCount (performanceMetrics s) + 1
    \<and> totalInferenceTime (performanceMetrics (snd (detectMedicine s img env)))
        = totalInferenceTime (performanceMetrics s) + inferenceTime env"
proof (cases rule: detectMedicine_cases [where s = s and img = img and env = env])
  case (hit d')
  then show ?thesis using assms by simp
next
  case (worker_ok d')
  then show ?thesis
    using assms(2) by (simp add: detectMedicine_worker_ok cache_get_cacheStore)
next
  case (worker_fails e)
  then show ?thesis using assms(2) by (simp add: detectMedicine_worker_fails)
next
  case (main_ok d')
  then show ?thesis
    using assms(2) by (simp add: detectMedicine_main_ok cache_get_cacheStore)
next
  case (main_fails e)
  then show ?thesis using assms(2) by (simp add: detectMedicine_main_fails)
qed

lemma detectMedicine_retry_not_recorded:
  assumes "cache_get (detectionCache s) (generateImageCacheKey img) = None"
    and "useWebWorker s" and "yoloWorker s" and "workerResult env = Inl e"
  shows "detectionCache (snd (detectMedicine s img env)) = detectionCache s
    \<and> inferenceCount (performanceMetrics (snd (detectMedicine s img env)))
        = inferenceCount (performanceMetrics s)
    \<and> totalInferenceTime (performanceMetrics (snd (detectMedicine s img env)))
        = totalInferenceTime (performanceMetrics s)"
  using assms by (simp add: detectMedicine_worker_fails)

text \<open>
  C7 at a failing input. With the worker started and an empty cache, a call whose
  worker path fails and whose retry on the main thread succeeds returns the
  detections of the retry; the cache is still empty afterwards, and
  \<open>inferenceCount\<close> and \<open>totalInferenceTime\<close> are still \<open>0\<close>.
\<close>

theorem retry_result_not_cached:
  "fst (detectMedicine worker_state (scan_image 1) worker_failure_env)
     = (Inr one_detection, [WithWorker, MainThread])
   \<and> detectionCache (snd (detectMedicine worker_state (scan_image 1) worker_failure_env)) = []
   \<and> cache_get (detectionCache (snd (detectMedicine worker_state (scan_image 1) worker_failure_env)))
        (generateImageCacheKey (scan_image 1)) = None
   \<and> inferenceCount
        (performanceMetrics (snd (detectMedicine worker_state (scan_image 1) worker_failure_env)))
       = 0
   \<and> totalInferenceTime
        (performanceMetrics (snd (detectMedicine worker_state (scan_image 1) worker_failure_env)))
       = 0
   \<and> workerUsage
        (performanceMetrics (snd (detectMedicine worker_state (scan_image 1) worker_failure_env)))
       = 1"
  by (simp add: detectMedicine_def detectDispatch_def detectSettle_def awaited_def
        catchBlock_def worker_state_def preloadModel_def initYOLOWorker_def initialState_def
        worker_failure_env_def cache_get_def)

section \<open>Properties of the telemetry\<close>

lemma detectMedicine_counts:
  assumes "detectionCache s = [] \<or> 0 < inferenceCount (performanceMetrics s)"
    and "cachedResults (performanceMetrics s) = 0 \<or> 0 < inferenceCount (performanceMetrics s)"
  shows "(detectionCache (snd (detectMedicine s img env)) = []
          \<or> 0 < inferenceCount (performanceMetrics (snd (detectMedicine s img env))))
       \<and> (cachedResults (performanceMetrics (snd (detectMedicine s img env))) = 0
          \<or> 0 < inferenceCount (performanceMetrics (snd (detectMedicine s img env))))"
proof (cases rule: detectMedicine_cases [where s = s and img = img and env = env])
  case (hit d)
  then have "detectionCache s \<noteq> []" by (auto simp: cache_get_def)
  then show ?thesis using assms hit by (simp add: detectMedicine_hit)
next
  case (worker_ok d)
  then show ?thesis by (simp add: detectMedicine_worker_ok)
next
  case (worker_fails e)
  then show ?thesis using assms by (simp add: detectMedicine_worker_fails)
next
  case (main_ok d)
  then show ?thesis by (simp add: detectMedicine_main_ok)
next
  case (main_fails e)
  then show ?thesis using assms by (simp add: detectMedicine_main_fails)
qed

lemma step_counts:
  assumes "detectionCache s = [] \<or> 0 < inferenceCount (performanceMetrics s)"
    and "cachedResults (performanceMetrics s) = 0 \<or> 0 < inferenceCount (performanceMetrics s)"
  shows "(detectionCache (step s ev) = [] \<or> 0 < inferenceCount (performanceMetrics (step s ev)))
       \<and> (cachedResults (performanceMetrics (step s ev)) = 0
          \<or> 0 < inferenceCount (performanceMetrics (step s ev)))"
proof (cases ev)
  case (Detect img env)
  then show ?thesis using detectMedicine_counts [OF assms, of img env] by simp
next
  case (Dispatch img)
  show ?thesis
  proof (cases "cache_get (detectionCache s) (generateImageCacheKey img)")
    case None
    then show ?thesis using assms by (simp add: Dispatch detectDispatch_def)
  next
    case (Some d)
    then have "detectionCache s \<noteq> []" by (auto simp: cache_get_def)
    then show ?thesis using assms Some by (simp add: Dispatch detectDispatch_def)
  qed
next
  case (Settle img c env)
  show ?thesis
    unfolding Settle using assms
    by (cases rule: detectSettle_cases
          [where s = s and k = "generateImageCacheKey img" and c = c and env = env])
       simp_all
next
  case (Preload a b)
  then show ?thesis using assms by (simp add: preloadModel_def initYOLOWorker_def Let_def)
next
  case WorkerError
  then show ?thesis using assms by (simp add: workerErrorEvent_def)
next
  case Reset
  then show ?thesis by (simp add: resetPerformanceMetrics_def)
qed

lemma exec_counts:
  "detectionCache s = [] \<or> 0 < inferenceCount (performanceMetrics s) \<Longrightarrow>
   cachedResults (performanceMetrics s) = 0 \<or> 0 < inferenceCount (performanceMetrics s) \<Longrightarrow>
   cachedResults (performanceMetrics (exec s evs)) = 0
     \<or> 0 < inferenceCount (performanceMetrics (exec s evs))"
proof (induction evs arbitrary: s)
  case Nil
  then show ?case by simp
next
  case (Cons ev evs)
  from step_counts [OF Cons.prems, of ev] show ?case
    by (simp add: Cons.IH)
qed

text \<open>Every event adds at most one to the two counters together.\<close>

lemma step_total:
  "inferenceCount (performanceMetrics (step s ev)) + cachedResults (performanceMetrics (step s ev))
     \<le> Suc (inferenceCount (performanceMetrics s) + cachedResults (performanceMetrics s))"
proof (cases ev)
  case (Detect img env)
  show ?thesis
    unfolding Detect
    by (cases rule: detectMedicine_cases [where s = s and img = img and env = env])
       (simp_all add: detectMedicine_hit detectMedicine_worker_ok detectMedicine_worker_fails
          detectMedicine_main_ok detectMedicine_main_fails)
next
  case (Dispatch img)
  then show ?thesis by (simp add: detectDispatch_def split: option.splits)
next
  case (Settle img c env)
  show ?thesis
    unfolding Settle
    by (cases rule: detectSettle_cases
          [where s = s and k = "generateImageCacheKey img" and c = c and env = env])
       simp_all
next
  case (Preload a b)
  then show ?thesis by (simp add: preloadModel_def initYOLOWorker_def Let_def)
next
  case WorkerError
  then show ?thesis by (simp add: workerErrorEvent_def)
next
  case Reset
  then show ?thesis by (simp add: resetPerformanceMetrics_def)
qed

lemma exec_total:
  "inferenceCount (performanceMetrics (exec s evs)) + cachedResults (performanceMetrics (exec s evs))
     \<le> inferenceCount (performanceMetrics s) + cachedResults (performanceMetrics s) + length evs"
proof (induction evs arbitrary: s)
  case Nil
  then show ?case by simp
next
  case (Cons ev evs)
  from Cons.IH [of "step s ev"] step_total [of s ev] show ?case by simp
qed

text \<open>
  Some percentages. The quotient \<open>23 / 80\<close> times \<open>100\<close> is \<open>28.75\<close> exactly and
  \<open>28.749999999999996\<close> in double precision, which prints as \<open>28.7\<close>.
\<close>

lemma percentage_1_of_4: "percentage 1 4 = ''25.0''"
  by code_simp

lemma percentage_1_of_3: "percentage 1 3 = ''33.3''"
  by code_simp

lemma percentage_23_of_80: "percentage 23 80 = ''28.7''"
  by code_simp

text \<open>
  C8, as stated, fails: the snapshot does not report the ratio but a percentage
  rounded to one decimal, as a string. After two inferences and one cache hit the
  ratio is \<open>1/3\<close> and the report is \<open>33.3%\<close>.
\<close>

theorem cacheHitRate_rounded_counterexample:
  "inferenceCount (performanceMetrics (exec initialState two_and_one)) = 2
   \<and> cachedResults (performanceMetrics (exec initialState two_and_one)) = 1
   \<and> cacheHitRate (getPerformanceMetrics (exec initialState two_and_one)) = ''33.3%''
   \<and> real (cachedResults (performanceMetrics (exec initialState two_and_one)))
       / real (inferenceCount (performanceMetrics (exec initialState two_and_one))
               + cachedResults (performanceMetrics (exec initialState two_and_one)))
       \<noteq> 333 / 1000"
proof -
  have a: "inferenceCount (performanceMetrics (exec initialState two_and_one)) = 2"
    and b: "cachedResults (performanceMetrics (exec initialState two_and_one)) = 1"
    by code_simp+
  have "cacheHitRate (getPerformanceMetrics (exec initialState two_and_one))
          = percentage 1 3 @ ''%''"
    using a b by (simp add: getPerformanceMetrics_def Let_def)
  then show ?thesis
    using a b by (simp add: percentage_1_of_3 [unfolded One_nat_def])
qed

text \<open>
  C8, amended. \<open>cacheHitRate\<close> is a string: \<open>0%\<close> when \<open>inferenceCount\<close> is \<open>0\<close>,
  and otherwise \<open>(cachedResults / (inferenceCount + cachedResults)) * 100\<close>, computed
  in double precision, printed with one decimal and a percent sign. In every state
  the process reaches, a counted hit comes with a counted inference, so the report
  is \<open>0%\<close> exactly when the denominator is zero; the two counters together are at
  most the number of events, hence below \<open>2 ^ 53\<close> in a run shorter than that.
  With three inferences and one cache hit the report is \<open>25.0%\<close>.
\<close>

theorem cacheHitRate_reported:
  "(length evs < 2 ^ 53 \<longrightarrow>
      inferenceCount (performanceMetrics (exec initialState evs))
        + cachedResults (performanceMetrics (exec initialState evs)) < 2 ^ 53
      \<and> (cachedResults (performanceMetrics (exec initialState evs)) = 0
         \<or> 0 < inferenceCount (performanceMetrics (exec initialState evs)))
      \<and> cacheHitRate (getPerformanceMetrics (exec initialState evs))
         = (if inferenceCount (performanceMetrics (exec initialState evs))
               + cachedResults (performanceMetrics (exec initialState evs)) = 0
            then ''0%''
            else percentage (cachedResults (performanceMetrics (exec initialState evs)))
                   (inferenceCount (performanceMetrics (exec initialState evs))
                    + cachedResults (performanceMetrics (exec initialState evs))) @ ''%''))
   \<and> (length evs < 2 ^ 53
        \<and> inferenceCount (performanceMetrics (exec initialState evs)) = 3
        \<and> cachedResults (performanceMetrics (exec initialState evs)) = 1 \<longrightarrow>
        cacheHitRate (getPerformanceMetrics (exec initialState evs)) = ''25.0%'')"
proof (intro conjI impI)
  have inv: "cachedResults (performanceMetrics (exec initialState evs)) = 0
     \<or> 0 < inferenceCount (performanceMetrics (exec initialState evs))"
    by (rule exec_counts) (simp_all add: initialState_def)
  {
    assume len: "length evs < 2 ^ 53"
    have "inferenceCount (performanceMetrics (exec initialState evs))
        + cachedResults (performanceMetrics (exec initialState evs)) \<le> length evs"
      using exec_total [of initialState evs] by (simp add: initialState_def)
    then show "inferenceCount (performanceMetrics (exec initialState evs))
        + cachedResults (performanceMetrics (exec initialState evs)) < 2 ^ 53"
      using len by linarith
    show "cachedResults (performanceMetrics (exec initialState evs)) = 0
         \<or> 0 < inferenceCount (performanceMetrics (exec initialState evs))"
      by (rule inv)
    show "cacheHitRate (getPerformanceMetrics (exec initialState evs))
         = (if inferenceCount (performanceMetrics (exec initialState evs))
               + cachedResults (performanceMetrics (exec initialState evs)) = 0
            then ''0%''
            else percentage (cachedResults (performanceMetrics (exec initialState evs)))
                   (inferenceCount (performanceMetrics (exec initialState evs))
                    + cachedResults (performanceMetrics (exec initialState evs))) @ ''%'')"
      using inv by (auto simp: getPerformanceMetrics_def Let_def)
  }
  {
    assume "length evs < 2 ^ 53
        \<and> inferenceCount (performanceMetrics (exec initialState evs)) = 3
        \<and> cachedResults (performanceMetrics (exec initialState evs)) = 1"
    then show "cacheHitRate (getPerformanceMetrics (exec initialState evs)) = ''25.0%''"
      by (simp add: getPerformanceMetrics_def Let_def percentage_1_of_4 [unfolded One_nat_def])
  }
qed

theorem cacheHitRate_reported_witness:
  "length three_and_one < 2 ^ 53
   \<and> inferenceCount (performanceMetrics (exec initialState three_and_one)) = 3
   \<and> cachedResults (performanceMetrics (exec initialState three_and_one)) = 1
   \<and> cacheHitRate (getPerformanceMetrics (exec initialState three_and_one)) = ''25.0%''
   \<and> cacheHitRate (getPerformanceMetrics (exec initialState [])) = ''0%''"
proof -
  have l: "length three_and_one < 2 ^ 53" by (simp add: three_and_one_def)
  have a: "inferenceCount (performanceMetrics (exec initialState three_and_one)) = 3"
    and b: "cachedResults (performanceMetrics (exec initialState three_and_one)) = 1"
    by code_simp+
  have z: "inferenceCount (performanceMetrics (exec initialState [])) = 0"
    "cachedResults (performanceMetrics (exec initialState [])) = 0"
    by (simp_all add: initialState_def)
  show ?thesis
    using cacheHitRate_reported [of three_and_one] cacheHitRate_reported [of "[]"] l a b z
    by (simp add: percentage_1_of_4 [unfolded One_nat_def])
qed

end
